theory Spec2Isabelle
  imports Main
begin

section \<open>Query decoding\<close>

text \<open>
  The Go struct types that implement the \<open>Query\<close> interface and that \<open>ParseQuery\<close> can
  produce. A decoded query is a pointer to a freshly filled struct of one of these types;
  it is modelled as the struct type together with the decoded struct value.
\<close>

datatype qtype =
    FuzzyQuery | MatchQuery | MatchPhraseQuery | PhraseQuery | MultiPhraseQuery
  | TermQuery | BooleanQuery | ConjunctionQuery | DisjunctionQuery | QueryStringQuery
  | NumericRangeQuery | TermRangeQuery | DateRangeStringQuery | PrefixQuery
  | RegexpQuery | WildcardQuery | MatchAllQuery | MatchNoneQuery | DocIDQuery
  | BoolFieldQuery | GeoBoundingBoxQuery | GeoDistanceQuery | GeoBoundingPolygonQuery
  | GeoShapeQuery | IPRangeQuery

text \<open>
  The dynamic values that decoding into \<open>map[string]interface{}\<close> stores: \<open>nil\<close>, \<open>bool\<close>,
  \<open>float64\<close>, \<open>string\<close>, \<open>[]interface{}\<close> and \<open>map[string]interface{}\<close>. The payload of a
  number is the type parameter \<open>'n\<close>: the cascade only asks for the dynamic type.
\<close>

datatype 'n jvalue =
    JNull | JBool bool | JNum 'n | JStr string
  | JArr "'n jvalue list" | JObj "(string \<times> 'n jvalue) list"

text \<open>
  The values of the interface \<open>error\<close> that occur: the syntax error and the type mismatch
  of the JSON library, and an error built by \<open>fmt.Errorf\<close> with the given message (by the
  functions modelled here, or by a decoder that a struct type brings along).
\<close>

datatype error = SyntaxError | UnmarshalTypeError | Errorf string

text \<open>The type assertions \<open>tmp[k].(float64)\<close> and \<open>tmp[k].(string)\<close>: the second result.\<close>

definition is_float64 :: "'n jvalue option \<Rightarrow> bool" where
  "is_float64 v = (case v of Some (JNum _) \<Rightarrow> True | _ \<Rightarrow> False)"

definition is_string :: "'n jvalue option \<Rightarrow> bool" where
  "is_string v = (case v of Some (JStr _) \<Rightarrow> True | _ \<Rightarrow> False)"

text \<open>The second result of the map index expression \<open>_, ok := tmp[k]\<close>.\<close>

definition has :: "(string \<rightharpoonup> 'n jvalue) \<Rightarrow> string \<Rightarrow> bool" where
  "has tmp k = (tmp k \<noteq> None)"

text \<open>
  The block repeated in every branch of \<open>ParseQuery\<close>:
  \<^verbatim>\<open>var rv T; err := util.UnmarshalJSON(input, &rv); if err != nil { return nil, err }; return &rv, nil\<close>.
  \<open>into t input\<close> is \<open>util.UnmarshalJSON(input, &rv)\<close> for \<open>rv\<close> of struct type \<open>t\<close>; the struct
  declarations and their decoders are not part of the sources at hand, so it is a parameter.
\<close>

definition decode_as ::
  "(qtype \<Rightarrow> 'i \<Rightarrow> error + 'p) \<Rightarrow> qtype \<Rightarrow> 'i \<Rightarrow> error + (qtype \<times> 'p)" where
  "decode_as into t input =
     (case into t input of Inl err \<Rightarrow> Inl err | Inr rv \<Rightarrow> Inr (t, rv))"

text \<open>
  \<open>ParseQuery\<close>. \<open>to_map input\<close> is \<open>util.UnmarshalJSON(input, &tmp)\<close> for
  \<open>tmp map[string]interface{}\<close>.
\<close>

definition ParseQuery ::
  "('i \<Rightarrow> error + (string \<rightharpoonup> 'n jvalue)) \<Rightarrow> (qtype \<Rightarrow> 'i \<Rightarrow> error + 'p) \<Rightarrow> 'i
     \<Rightarrow> error + (qtype \<times> 'p)" where
  "ParseQuery to_map into input =
    (case to_map input of
       Inl err \<Rightarrow> Inl err
     | Inr tmp \<Rightarrow>
        (let hasFuzziness = has tmp ''fuzziness'';
             isMatchQuery = has tmp ''match'';
             isMatchPhraseQuery = has tmp ''match_phrase'';
             hasTerms = has tmp ''terms''
         in
         if hasFuzziness \<and> \<not> isMatchQuery \<and> \<not> isMatchPhraseQuery \<and> \<not> hasTerms
           then decode_as into FuzzyQuery input
         else if isMatchQuery then decode_as into MatchQuery input
         else if isMatchPhraseQuery then decode_as into MatchPhraseQuery input
         else if hasTerms then
           (case into PhraseQuery input of
              Inl err \<Rightarrow>
                (case into MultiPhraseQuery input of
                   Inl err2 \<Rightarrow> Inl err2
                 | Inr rv2 \<Rightarrow> Inr (MultiPhraseQuery, rv2))
            | Inr rv \<Rightarrow> Inr (PhraseQuery, rv))
         else if has tmp ''term'' then decode_as into TermQuery input
         else if has tmp ''must'' \<or> has tmp ''should'' \<or> has tmp ''must_not''
           then decode_as into BooleanQuery input
         else if has tmp ''conjuncts'' then decode_as into ConjunctionQuery input
         else if has tmp ''disjuncts'' then decode_as into DisjunctionQuery input
         else if has tmp ''query'' then decode_as into QueryStringQuery input
         else if is_float64 (tmp ''min'') \<or> is_float64 (tmp ''max'')
           then decode_as into NumericRangeQuery input
         else if is_string (tmp ''min'') \<or> is_string (tmp ''max'')
           then decode_as into TermRangeQuery input
         else if has tmp ''start'' \<or> has tmp ''end''
           then decode_as into DateRangeStringQuery input
         else if has tmp ''prefix'' then decode_as into PrefixQuery input
         else if has tmp ''regexp'' then decode_as into RegexpQuery input
         else if has tmp ''wildcard'' then decode_as into WildcardQuery input
         else if has tmp ''match_all'' then decode_as into MatchAllQuery input
         else if has tmp ''match_none'' then decode_as into MatchNoneQuery input
         else if has tmp ''ids'' then decode_as into DocIDQuery input
         else if has tmp ''bool'' then decode_as into BoolFieldQuery input
         else if has tmp ''top_left'' \<and> has tmp ''bottom_right''
           then decode_as into GeoBoundingBoxQuery input
         else if has tmp ''distance'' then decode_as into GeoDistanceQuery input
         else if has tmp ''polygon_points'' then decode_as into GeoBoundingPolygonQuery input
         else if has tmp ''geometry'' then decode_as into GeoShapeQuery input
         else if has tmp ''cidr'' then decode_as into IPRangeQuery input
         else Inl (Errorf ''unknown query type'')))"

subsection \<open>The cascade as the specification words it\<close>

text \<open>
  The ordered list of predicates of the specification (section 4.2, steps 1 to 24), each
  with the struct type it selects; step 4 selects \<open>PhraseQuery\<close>, whose decode carries the
  multi-term fallback. Step 25 is the case that no entry matches.
\<close>

definition present :: "string \<Rightarrow> (string \<rightharpoonup> 'n jvalue) \<Rightarrow> bool" where
  "present k tmp = (k \<in> dom tmp)"

definition present_as_number :: "string \<Rightarrow> (string \<rightharpoonup> 'n jvalue) \<Rightarrow> bool" where
  "present_as_number k tmp = (case tmp k of Some (JNum _) \<Rightarrow> True | _ \<Rightarrow> False)"

definition present_as_string :: "string \<Rightarrow> (string \<rightharpoonup> 'n jvalue) \<Rightarrow> bool" where
  "present_as_string k tmp = (case tmp k of Some (JStr _) \<Rightarrow> True | _ \<Rightarrow> False)"

definition spec_cascade :: "(((string \<rightharpoonup> 'n jvalue) \<Rightarrow> bool) \<times> qtype) list" where
  "spec_cascade =
    [(\<lambda>m. present ''fuzziness'' m \<and>
           \<not> (present ''match'' m \<or> present ''match_phrase'' m \<or> present ''terms'' m),
      FuzzyQuery),
     (present ''match'', MatchQuery),
     (present ''match_phrase'', MatchPhraseQuery),
     (present ''terms'', PhraseQuery),
     (present ''term'', TermQuery),
     (\<lambda>m. present ''must'' m \<or> present ''should'' m \<or> present ''must_not'' m, BooleanQuery),
     (present ''conjuncts'', ConjunctionQuery),
     (present ''disjuncts'', DisjunctionQuery),
     (present ''query'', QueryStringQuery),
     (\<lambda>m. present_as_number ''min'' m \<or> present_as_number ''max'' m, NumericRangeQuery),
     (\<lambda>m. present_as_string ''min'' m \<or> present_as_string ''max'' m, TermRangeQuery),
     (\<lambda>m. present ''start'' m \<or> present ''end'' m, DateRangeStringQuery),
     (present ''prefix'', PrefixQuery),
     (present ''regexp'', RegexpQuery),
     (present ''wildcard'', WildcardQuery),
     (present ''match_all'', MatchAllQuery),
     (present ''match_none'', MatchNoneQuery),
     (present ''ids'', DocIDQuery),
     (present ''bool'', BoolFieldQuery),
     (\<lambda>m. present ''top_left'' m \<and> present ''bottom_right'' m, GeoBoundingBoxQuery),
     (present ''distance'', GeoDistanceQuery),
     (present ''polygon_points'', GeoBoundingPolygonQuery),
     (present ''geometry'', GeoShapeQuery),
     (present ''cidr'', IPRangeQuery)]"

text \<open>
  The strict decode of the selected branch: surfaced directly, except for step 4, which on
  a failed decode as \<open>PhraseQuery\<close> decodes as \<open>MultiPhraseQuery\<close> and surfaces that result.
\<close>

definition spec_branch ::
  "(qtype \<Rightarrow> 'i \<Rightarrow> error + 'p) \<Rightarrow> qtype \<Rightarrow> 'i \<Rightarrow> error + (qtype \<times> 'p)" where
  "spec_branch into t input =
     (if t = PhraseQuery then
        (case into PhraseQuery input of
           Inr rv \<Rightarrow> Inr (PhraseQuery, rv)
         | Inl _ \<Rightarrow> decode_as into MultiPhraseQuery input)
      else decode_as into t input)"

text \<open>The first entry of the cascade whose predicate holds, if any.\<close>

definition spec_select :: "(string \<rightharpoonup> 'n jvalue) \<Rightarrow> qtype option" where
  "spec_select tmp = map_option snd (find (\<lambda>(p, t). p tmp) spec_cascade)"

definition spec_decode ::
  "('i \<Rightarrow> error + (string \<rightharpoonup> 'n jvalue)) \<Rightarrow> (qtype \<Rightarrow> 'i \<Rightarrow> error + 'p) \<Rightarrow> 'i
     \<Rightarrow> error + (qtype \<times> 'p)" where
  "spec_decode to_map into input =
     (case to_map input of
        Inl err \<Rightarrow> Inl err
      | Inr tmp \<Rightarrow>
          (case spec_select tmp of
             None \<Rightarrow> Inl (Errorf ''unknown query type'')
           | Some t \<Rightarrow> spec_branch into t input))"

section \<open>Pre-search data decoding\<close>

text \<open>
  \<open>ParsePreSearchData\<close>. \<open>to_raw input\<close> is \<open>util.UnmarshalJSON(input, &tmp)\<close> for
  \<open>tmp map[string]json.RawMessage\<close>, given as the entries of the map in the order the
  \<open>range\<close> loop visits them (\<open>None\<close> is a nil \<open>RawMessage\<close>); \<open>to_matches v\<close> is
  \<open>util.UnmarshalJSON(v, &value)\<close> for \<open>value []*search.DocumentMatch\<close>. A slice is a list
  option, \<open>None\<close> being the nil slice; the returned map is an option of a map, \<open>None\<close> being
  the nil map that \<open>var rv map[string]interface{}\<close> declares. \<open>key\<close> is the constant
  \<open>search.KnnPreSearchDataKey\<close>, declared outside the sources at hand.
\<close>

fun presearch_range ::
  "string \<Rightarrow> ('r \<Rightarrow> error + 'd list option) \<Rightarrow> (string \<times> 'r option) list
     \<Rightarrow> (string \<rightharpoonup> 'd list option) option \<Rightarrow> error + (string \<rightharpoonup> 'd list option) option" where
  "presearch_range key to_matches [] rv = Inr rv"
| "presearch_range key to_matches ((k, v) # kvs) rv =
     (if k = key then
        (case (case v of None \<Rightarrow> Inr None | Some raw \<Rightarrow> to_matches raw) of
           Inl err \<Rightarrow> Inl err
         | Inr val \<Rightarrow>
             presearch_range key to_matches kvs
               (Some ((case rv of None \<Rightarrow> Map.empty | Some m \<Rightarrow> m)(key \<mapsto> val))))
      else presearch_range key to_matches kvs rv)"

definition ParsePreSearchData ::
  "string \<Rightarrow> ('i \<Rightarrow> error + (string \<times> 'r option) list) \<Rightarrow> ('r \<Rightarrow> error + 'd list option) \<Rightarrow> 'i
     \<Rightarrow> error + (string \<rightharpoonup> 'd list option) option" where
  "ParsePreSearchData key to_raw to_matches input =
     (case to_raw input of
        Inl err \<Rightarrow> Inl err
      | Inr tmp \<Rightarrow> presearch_range key to_matches tmp None)"

section \<open>Query expansion\<close>

text \<open>
  A \<open>Query\<close> interface value is nil or a pointer to a struct of one of the query types. The
  structs live in a store with one component per field that \<open>expandQuery\<close> reads or
  writes, indexed by the address of the struct; a slice field holds a list option, \<open>None\<close>
  being the nil slice. \<open>Query_text\<close> is the field \<open>Query\<close> of a \<open>QueryStringQuery\<close>; \<open>next_free\<close>
  is the address the next allocated struct gets. Every address holds a struct of every
  type, so a pointer inside an interface value is never nil: the only nil query is the
  nil interface value \<open>NilQuery\<close>.
\<close>

type_synonym addr = nat

datatype Query = NilQuery | Ref qtype addr

record store =
  next_free :: addr
  Query_text :: "addr \<Rightarrow> string"
  Conjuncts :: "addr \<Rightarrow> Query list option"
  Disjuncts :: "addr \<Rightarrow> Query list option"
  Must :: "addr \<Rightarrow> Query"
  Should :: "addr \<Rightarrow> Query"
  MustNot :: "addr \<Rightarrow> Query"

text \<open>The elements a \<open>range\<close> loop visits: none for the nil slice.\<close>

definition elems :: "'a list option \<Rightarrow> 'a list" where
  "elems xs = (case xs of None \<Rightarrow> [] | Some ys \<Rightarrow> ys)"

text \<open>The query a call returns beside its error: nil when the error is set.\<close>

definition returned :: "error + Query \<Rightarrow> Query" where
  "returned r = (case r of Inl _ \<Rightarrow> NilQuery | Inr q \<Rightarrow> q)"

text \<open>\<open>fmt.Errorf("could not parse '%s': %s", q.Query, err)\<close>, on the message of \<open>err\<close>.\<close>

definition could_not_parse :: "string \<Rightarrow> string \<Rightarrow> error" where
  "could_not_parse text msg =
     Errorf (''could not parse '' @ [CHR 0x27] @ text @ [CHR 0x27] @ '': '' @ msg)"

text \<open>
  The closure \<open>expandSlice\<close>, over the closure \<open>expand\<close> it calls; \<open>expanded\<close> is the slice
  built so far, \<open>[]Query{}\<close> at the call.
\<close>

fun expandSlice ::
  "('s \<Rightarrow> 'q \<Rightarrow> ('s \<times> (error + 'q)) option) \<Rightarrow> 's \<Rightarrow> 'q list \<Rightarrow> 'q list
     \<Rightarrow> ('s \<times> (error + 'q list)) option" where
  "expandSlice expand s [] expanded = Some (s, Inr expanded)"
| "expandSlice expand s (q # queries) expanded =
     (case expand s q of
        None \<Rightarrow> None
      | Some (s1, Inl err) \<Rightarrow> Some (s1, Inl err)
      | Some (s1, Inr exp) \<Rightarrow> expandSlice expand s1 queries (expanded @ [exp]))"

text \<open>
  The grammar parser \<open>parseQuerySyntax\<close> is declared outside the sources at hand. It
  receives the text only, so it cannot reach the structs of the tree being expanded: it
  is a parameter that returns the message of its error or the tree it built, as a value.
  \<open>alloc\<close> places that tree in the store at addresses not in use and returns the pointer
  to its root.
\<close>

datatype ptree =
    PNil | PLeaf qtype | PQueryString string
  | PConjunction "ptree list" | PDisjunction "ptree list" | PBoolean ptree ptree ptree

fun alloc :: "ptree \<Rightarrow> store \<Rightarrow> Query \<times> store"
  and alloc_list :: "ptree list \<Rightarrow> store \<Rightarrow> Query list \<times> store" where
  "alloc PNil s = (NilQuery, s)"
| "alloc (PLeaf t) s = (Ref t (next_free s), s\<lparr>next_free := Suc (next_free s)\<rparr>)"
| "alloc (PQueryString text) s =
     (Ref QueryStringQuery (next_free s),
      s\<lparr>next_free := Suc (next_free s), Query_text := (Query_text s)(next_free s := text)\<rparr>)"
| "alloc (PConjunction ts) s =
     (case alloc_list ts s of (qs, s1) \<Rightarrow>
        (Ref ConjunctionQuery (next_free s1),
         s1\<lparr>next_free := Suc (next_free s1),
            Conjuncts := (Conjuncts s1)(next_free s1 := Some qs)\<rparr>))"
| "alloc (PDisjunction ts) s =
     (case alloc_list ts s of (qs, s1) \<Rightarrow>
        (Ref DisjunctionQuery (next_free s1),
         s1\<lparr>next_free := Suc (next_free s1),
            Disjuncts := (Disjuncts s1)(next_free s1 := Some qs)\<rparr>))"
| "alloc (PBoolean m sh mn) s =
     (case alloc m s of (qm, s1) \<Rightarrow>
      case alloc sh s1 of (qsh, s2) \<Rightarrow>
      case alloc mn s2 of (qmn, s3) \<Rightarrow>
        (Ref BooleanQuery (next_free s3),
         s3\<lparr>next_free := Suc (next_free s3),
            Must := (Must s3)(next_free s3 := qm),
            Should := (Should s3)(next_free s3 := qsh),
            MustNot := (MustNot s3)(next_free s3 := qmn)\<rparr>))"
| "alloc_list [] s = ([], s)"
| "alloc_list (t # ts) s =
     (case alloc t s of (q, s1) \<Rightarrow>
      case alloc_list ts s1 of (qs, s2) \<Rightarrow> (q # qs, s2))"

text \<open>
  The closure \<open>expand\<close> of \<open>expandQuery\<close>. Its recursion is not bounded by its argument (the
  parser's output is expanded again), so the model counts the nesting of calls: the
  result is \<open>None\<close> when the nesting would exceed the fuel. The store is returned on
  failure too: the writes made before the error stay.
\<close>

primrec expand ::
  "(string \<Rightarrow> string + ptree) \<Rightarrow> nat \<Rightarrow> store \<Rightarrow> Query
     \<Rightarrow> (store \<times> (error + Query)) option" where
  "expand parseQuerySyntax 0 = (\<lambda>s query. None)"
| "expand parseQuerySyntax (Suc fuel) = (\<lambda>s query.
     case query of
       NilQuery \<Rightarrow> Some (s, Inr query)
     | Ref t q \<Rightarrow>
        if t = QueryStringQuery then
          (case parseQuerySyntax (Query_text s q) of
             Inl err \<Rightarrow> Some (s, Inl (could_not_parse (Query_text s q) err))
           | Inr tree \<Rightarrow>
               (case alloc tree s of (parsed, s1) \<Rightarrow> expand parseQuerySyntax fuel s1 parsed))
        else if t = ConjunctionQuery then
          (case expandSlice (expand parseQuerySyntax fuel) s (elems (Conjuncts s q)) [] of
             None \<Rightarrow> None
           | Some (s1, Inl err) \<Rightarrow> Some (s1, Inl err)
           | Some (s1, Inr children) \<Rightarrow>
               Some (s1\<lparr>Conjuncts := (Conjuncts s1)(q := Some children)\<rparr>, Inr query))
        else if t = DisjunctionQuery then
          (case expandSlice (expand parseQuerySyntax fuel) s (elems (Disjuncts s q)) [] of
             None \<Rightarrow> None
           | Some (s1, Inl err) \<Rightarrow> Some (s1, Inl err)
           | Some (s1, Inr children) \<Rightarrow>
               Some (s1\<lparr>Disjuncts := (Disjuncts s1)(q := Some children)\<rparr>, Inr query))
        else if t = BooleanQuery then
          (case expand parseQuerySyntax fuel s (Must s q) of
             None \<Rightarrow> None
           | Some (s1, r1) \<Rightarrow>
              let s1' = s1\<lparr>Must := (Must s1)(q := returned r1)\<rparr> in
              (case r1 of
                 Inl err \<Rightarrow> Some (s1', Inl err)
               | Inr _ \<Rightarrow>
                  (case expand parseQuerySyntax fuel s1' (Should s1' q) of
                     None \<Rightarrow> None
                   | Some (s2, r2) \<Rightarrow>
                      let s2' = s2\<lparr>Should := (Should s2)(q := returned r2)\<rparr> in
                      (case r2 of
                         Inl err \<Rightarrow> Some (s2', Inl err)
                       | Inr _ \<Rightarrow>
                          (case expand parseQuerySyntax fuel s2' (MustNot s2' q) of
                             None \<Rightarrow> None
                           | Some (s3, r3) \<Rightarrow>
                              let s3' = s3\<lparr>MustNot := (MustNot s3)(q := returned r3)\<rparr> in
                              (case r3 of
                                 Inl err \<Rightarrow> Some (s3', Inl err)
                               | Inr _ \<Rightarrow> Some (s3', Inr query)))))))
        else Some (s, Inr query))"

text \<open>\<open>expandQuery\<close>: the mapping argument is not used.\<close>

definition expandQuery ::
  "(string \<Rightarrow> string + ptree) \<Rightarrow> nat \<Rightarrow> 'm \<Rightarrow> store \<Rightarrow> Query
     \<Rightarrow> (store \<times> (error + Query)) option" where
  "expandQuery parseQuerySyntax fuel m s query = expand parseQuerySyntax fuel s query"

subsection \<open>Expanding the children of a node, as the specification words it\<close>

text \<open>
  "Expands each child independently, preserving order; any child failure aborts the whole
  expansion with that child's error": the children are expanded from left to right, each
  in the store the one before it left, and the results are listed in that order.
\<close>

fun spec_expand_children ::
  "('s \<Rightarrow> 'q \<Rightarrow> ('s \<times> (error + 'q)) option) \<Rightarrow> 's \<Rightarrow> 'q list \<Rightarrow> ('s \<times> (error + 'q list)) option" where
  "spec_expand_children child s [] = Some (s, Inr [])"
| "spec_expand_children child s (q # queries) =
     (case child s q of
        None \<Rightarrow> None
      | Some (s1, Inl err) \<Rightarrow> Some (s1, Inl err)
      | Some (s1, Inr exp) \<Rightarrow>
          (case spec_expand_children child s1 queries of
             None \<Rightarrow> None
           | Some (s2, Inl err) \<Rightarrow> Some (s2, Inl err)
           | Some (s2, Inr exps) \<Rightarrow> Some (s2, Inr (exp # exps))))"

subsection \<open>Trees without query string nodes\<close>

text \<open>
  \<open>string_free d s query\<close>: the nodes reachable from \<open>query\<close> in the store \<open>s\<close> form a
  structure of height at most \<open>d\<close> that holds no \<open>QueryStringQuery\<close>.
\<close>

primrec string_free :: "nat \<Rightarrow> store \<Rightarrow> Query \<Rightarrow> bool" where
  "string_free 0 = (\<lambda>s query. False)"
| "string_free (Suc d) = (\<lambda>s query.
     case query of
       NilQuery \<Rightarrow> True
     | Ref t q \<Rightarrow>
        if t = QueryStringQuery then False
        else if t = ConjunctionQuery then list_all (string_free d s) (elems (Conjuncts s q))
        else if t = DisjunctionQuery then list_all (string_free d s) (elems (Disjuncts s q))
        else if t = BooleanQuery then
          string_free d s (Must s q) \<and> string_free d s (Should s q) \<and> string_free d s (MustNot s q)
        else True)"

text \<open>
  \<open>settled d s query\<close>: moreover, no conjunction or disjunction among these nodes holds
  the nil slice.
\<close>

primrec settled :: "nat \<Rightarrow> store \<Rightarrow> Query \<Rightarrow> bool" where
  "settled 0 = (\<lambda>s query. False)"
| "settled (Suc d) = (\<lambda>s query.
     case query of
       NilQuery \<Rightarrow> True
     | Ref t q \<Rightarrow>
        if t = QueryStringQuery then False
        else if t = ConjunctionQuery then
          Conjuncts s q \<noteq> None \<and> list_all (settled d s) (elems (Conjuncts s q))
        else if t = DisjunctionQuery then
          Disjuncts s q \<noteq> None \<and> list_all (settled d s) (elems (Disjuncts s q))
        else if t = BooleanQuery then
          settled d s (Must s q) \<and> settled d s (Should s q) \<and> settled d s (MustNot s q)
        else True)"

text \<open>
  \<open>nil_slices_made s s'\<close>: the store \<open>s'\<close> is \<open>s\<close>, but for nil slices of conjunctions and
  disjunctions that have become empty slices.
\<close>

definition nil_slices_made :: "store \<Rightarrow> store \<Rightarrow> bool" where
  "nil_slices_made s s' =
     (next_free s' = next_free s \<and> Query_text s' = Query_text s \<and> Must s' = Must s
      \<and> Should s' = Should s \<and> MustNot s' = MustNot s
      \<and> (\<forall>a. Conjuncts s' a = Conjuncts s a \<or> Conjuncts s' a = Some (elems (Conjuncts s a)))
      \<and> (\<forall>a. Disjuncts s' a = Disjuncts s a \<or> Disjuncts s' a = Some (elems (Disjuncts s a))))"

subsection \<open>Predicates on stores\<close>

text \<open>
  \<open>extends s s'\<close>: the store \<open>s'\<close> holds the structs of \<open>s\<close> unchanged, and possibly more.
\<close>

definition extends :: "store \<Rightarrow> store \<Rightarrow> bool" where
  "extends s s' =
     (next_free s \<le> next_free s'
      \<and> (\<forall>a < next_free s.
            Query_text s' a = Query_text s a \<and> Conjuncts s' a = Conjuncts s a
            \<and> Disjuncts s' a = Disjuncts s a \<and> Must s' a = Must s a
            \<and> Should s' a = Should s a \<and> MustNot s' a = MustNot s a))"

text \<open>
  \<open>slots_absent m sh mn a s\<close>: the boolean query at the allocated address \<open>a\<close> has nil in
  those of its slots must, should and must-not that the flags name.
\<close>

definition slots_absent :: "bool \<Rightarrow> bool \<Rightarrow> bool \<Rightarrow> addr \<Rightarrow> store \<Rightarrow> bool" where
  "slots_absent m sh mn a s =
     (a < next_free s \<and> (m \<longrightarrow> Must s a = NilQuery) \<and> (sh \<longrightarrow> Should s a = NilQuery)
      \<and> (mn \<longrightarrow> MustNot s a = NilQuery))"

text \<open>
  \<open>slots_hold m sh a s\<close>: the boolean query at the allocated address \<open>a\<close> holds the given
  queries in its must and should slots, where one is given. \<open>expanded_value\<close>: the query
  given, if any, is not a pointer to a query string.
\<close>

definition slots_hold :: "Query option \<Rightarrow> Query option \<Rightarrow> addr \<Rightarrow> store \<Rightarrow> bool" where
  "slots_hold m sh a s =
     (a < next_free s
      \<and> (case m of None \<Rightarrow> True | Some x \<Rightarrow> Must s a = x)
      \<and> (case sh of None \<Rightarrow> True | Some x \<Rightarrow> Should s a = x))"

definition expanded_value :: "Query option \<Rightarrow> bool" where
  "expanded_value m = (case m of Some (Ref t _) \<Rightarrow> t \<noteq> QueryStringQuery | _ \<Rightarrow> True)"

subsection \<open>A store and a parser to run the expansion on\<close>

definition empty_store :: store where
  "empty_store =
     \<lparr>next_free = 0, Query_text = (\<lambda>_. []), Conjuncts = (\<lambda>_. None), Disjuncts = (\<lambda>_. None),
      Must = (\<lambda>_. NilQuery), Should = (\<lambda>_. NilQuery), MustNot = (\<lambda>_. NilQuery)\<rparr>"

text \<open>
  A stand-in for the grammar parser: the empty text is an error, the text \<open>again\<close> parses
  to another query string, any other text to a boolean query whose should-slot holds a
  disjunction of one match query.
\<close>

definition sample_parse :: "string \<Rightarrow> string + ptree" where
  "sample_parse text =
     (if text = [] then Inl ''empty query''
      else if text = ''again'' then Inr (PQueryString ''beer'')
      else Inr (PBoolean PNil (PDisjunction [PLeaf MatchQuery]) PNil))"

text \<open>
  A store with a boolean query at address 4 whose must-slot holds the conjunction at
  address 3, of the query string \<open>beer\<close>, a term query and the query string \<open>again\<close>.
\<close>

definition sample_store :: store where
  "sample_store =
     \<lparr>next_free = 5,
      Query_text = (\<lambda>_. [])(0 := ''beer'', 2 := ''again''),
      Conjuncts = (\<lambda>_. None)
        (3 := Some [Ref QueryStringQuery 0, Ref TermQuery 1, Ref QueryStringQuery 2]),
      Disjuncts = (\<lambda>_. None),
      Must = (\<lambda>_. NilQuery)(4 := Ref ConjunctionQuery 3),
      Should = (\<lambda>_. NilQuery),
      MustNot = (\<lambda>_. NilQuery)\<rparr>"

text \<open>
  A store without query strings: the boolean query at address 4 holds a conjunction of a
  term query and a match query in its must-slot and, in its should-slot, a disjunction
  whose slice is nil.
\<close>

definition plain_store :: store where
  "plain_store =
     \<lparr>next_free = 5,
      Query_text = (\<lambda>_. []),
      Conjuncts = (\<lambda>_. None)(3 := Some [Ref TermQuery 1, Ref MatchQuery 2]),
      Disjuncts = (\<lambda>_. None),
      Must = (\<lambda>_. NilQuery)(4 := Ref ConjunctionQuery 3),
      Should = (\<lambda>_. NilQuery)(4 := Ref DisjunctionQuery 0),
      MustNot = (\<lambda>_. NilQuery)\<rparr>"

subsection \<open>Expanding a tree, as the specification words it\<close>

text \<open>
  "Recursively rewrites: StringSyntax node: invokes the external grammar parser on its raw
  text; on parser failure, fails with a wrapped error naming the original text and
  parser's message; on success, recursively expands the parser's output. Conjunction /
  Disjunction: expands each child independently, preserving order; any child failure
  aborts the whole expansion with that child's error. Boolean: expands its must, should,
  must_not slots independently; an absent slot remains absent." The description is read
  on trees as values, with no store: a list of trees is expanded from left to right and
  the first failure ends it.
\<close>

fun spec_expand_list ::
  "('t \<Rightarrow> (error + 't) option) \<Rightarrow> 't list \<Rightarrow> (error + 't list) option" where
  "spec_expand_list child [] = Some (Inr [])"
| "spec_expand_list child (t # ts) =
     (case child t of
        None \<Rightarrow> None
      | Some (Inl err) \<Rightarrow> Some (Inl err)
      | Some (Inr e) \<Rightarrow>
          (case spec_expand_list child ts of
             None \<Rightarrow> None
           | Some (Inl err) \<Rightarrow> Some (Inl err)
           | Some (Inr es) \<Rightarrow> Some (Inr (e # es))))"

text \<open>
  The expansion of a tree. A query string becomes the expansion of what the parser makes
  of its text, so query strings nested anywhere in the parser's output are expanded too.
  The fuel bounds the depth of the recursion as it does in \<open>expand\<close>: \<open>None\<close> is a run
  that needs more.
\<close>

primrec spec_expand :: "(string \<Rightarrow> string + ptree) \<Rightarrow> nat \<Rightarrow> ptree \<Rightarrow> (error + ptree) option" where
  "spec_expand parse 0 = (\<lambda>t. None)"
| "spec_expand parse (Suc fuel) = (\<lambda>t.
     case t of
       PNil \<Rightarrow> Some (Inr PNil)
     | PLeaf ty \<Rightarrow> Some (Inr (PLeaf ty))
     | PQueryString w \<Rightarrow>
         (case parse w of
            Inl msg \<Rightarrow> Some (Inl (could_not_parse w msg))
          | Inr parsed \<Rightarrow> spec_expand parse fuel parsed)
     | PConjunction ts \<Rightarrow>
         (case spec_expand_list (spec_expand parse fuel) ts of
            None \<Rightarrow> None
          | Some (Inl err) \<Rightarrow> Some (Inl err)
          | Some (Inr es) \<Rightarrow> Some (Inr (PConjunction es)))
     | PDisjunction ts \<Rightarrow>
         (case spec_expand_list (spec_expand parse fuel) ts of
            None \<Rightarrow> None
          | Some (Inl err) \<Rightarrow> Some (Inl err)
          | Some (Inr es) \<Rightarrow> Some (Inr (PDisjunction es)))
     | PBoolean m sh mn \<Rightarrow>
         (case spec_expand parse fuel m of
            None \<Rightarrow> None
          | Some (Inl err) \<Rightarrow> Some (Inl err)
          | Some (Inr m') \<Rightarrow>
             (case spec_expand parse fuel sh of
                None \<Rightarrow> None
              | Some (Inl err) \<Rightarrow> Some (Inl err)
              | Some (Inr sh') \<Rightarrow>
                 (case spec_expand parse fuel mn of
                    None \<Rightarrow> None
                  | Some (Inl err) \<Rightarrow> Some (Inl err)
                  | Some (Inr mn') \<Rightarrow> Some (Inr (PBoolean m' sh' mn'))))))"

text \<open>The trees that hold no query string, at any depth.\<close>

fun no_query_string :: "ptree \<Rightarrow> bool"
  and no_query_string_list :: "ptree list \<Rightarrow> bool" where
  "no_query_string PNil = True"
| "no_query_string (PLeaf t) = True"
| "no_query_string (PQueryString w) = False"
| "no_query_string (PConjunction ts) = no_query_string_list ts"
| "no_query_string (PDisjunction ts) = no_query_string_list ts"
| "no_query_string (PBoolean m sh mn) =
     (no_query_string m \<and> no_query_string sh \<and> no_query_string mn)"
| "no_query_string_list [] = True"
| "no_query_string_list (t # ts) = (no_query_string t \<and> no_query_string_list ts)"

text \<open>The composite nodes: conjunctions, disjunctions and boolean queries.\<close>

definition composite :: "ptree \<Rightarrow> bool" where
  "composite t =
     (case t of PConjunction _ \<Rightarrow> True | PDisjunction _ \<Rightarrow> True | PBoolean _ _ _ \<Rightarrow> True
      | _ \<Rightarrow> False)"

text \<open>
  The height of a tree counts its nested composites; a leaf, a query string and nil have
  height 0. A tree without query strings of height below the fuel is expanded within
  the fuel.
\<close>

fun height :: "ptree \<Rightarrow> nat"
  and height_list :: "ptree list \<Rightarrow> nat" where
  "height PNil = 0"
| "height (PLeaf t) = 0"
| "height (PQueryString w) = 0"
| "height (PConjunction ts) = Suc (height_list ts)"
| "height (PDisjunction ts) = Suc (height_list ts)"
| "height (PBoolean m sh mn) = Suc (max (height m) (max (height sh) (height mn)))"
| "height_list [] = 0"
| "height_list (t # ts) = max (height t) (height_list ts)"

subsection \<open>Stores that hold a tree\<close>

text \<open>
  A leaf of a tree stands for a node of one of the variants that are returned as they
  are; the four variants that the expansion rewrites have a constructor of their own. A
  parser is well behaved when the trees it returns are built in this way.
\<close>

fun well_typed :: "ptree \<Rightarrow> bool"
  and well_typed_list :: "ptree list \<Rightarrow> bool" where
  "well_typed PNil = True"
| "well_typed (PLeaf t) =
     (t \<noteq> QueryStringQuery \<and> t \<noteq> ConjunctionQuery \<and> t \<noteq> DisjunctionQuery
      \<and> t \<noteq> BooleanQuery)"
| "well_typed (PQueryString w) = True"
| "well_typed (PConjunction ts) = well_typed_list ts"
| "well_typed (PDisjunction ts) = well_typed_list ts"
| "well_typed (PBoolean m sh mn) = (well_typed m \<and> well_typed sh \<and> well_typed mn)"
| "well_typed_list [] = True"
| "well_typed_list (t # ts) = (well_typed t \<and> well_typed_list ts)"

definition parser_ok :: "(string \<Rightarrow> string + ptree) \<Rightarrow> bool" where
  "parser_ok parse = (\<forall>w t. parse w = Inr t \<longrightarrow> well_typed t)"

text \<open>
  A parser is flat, with bound \<open>d\<close>, when the trees it returns hold no query string and
  have height at most \<open>d\<close>: then a query string is expanded in one call of the parser.
\<close>

definition parser_flat :: "(string \<Rightarrow> string + ptree) \<Rightarrow> nat \<Rightarrow> bool" where
  "parser_flat parse d = (\<forall>w t. parse w = Inr t \<longrightarrow> no_query_string t \<and> height t \<le> d)"

text \<open>
  The pointer \<open>q\<close> denotes the tree \<open>t\<close> in the store \<open>s\<close>: the structs reached from \<open>q\<close>
  have the variants, the texts, the children (in order) and the slots of \<open>t\<close>. The structs
  of the tree that the expansion may write lie at addresses of \<open>A\<close>.
\<close>

fun denotes_on :: "(addr \<Rightarrow> bool) \<Rightarrow> store \<Rightarrow> Query \<Rightarrow> ptree \<Rightarrow> bool"
  and denotes_list_on :: "(addr \<Rightarrow> bool) \<Rightarrow> store \<Rightarrow> Query list \<Rightarrow> ptree list \<Rightarrow> bool" where
  "denotes_on A s q PNil = (q = NilQuery)"
| "denotes_on A s q (PLeaf ty) = (case q of NilQuery \<Rightarrow> False | Ref t a \<Rightarrow> t = ty)"
| "denotes_on A s q (PQueryString w) =
     (case q of NilQuery \<Rightarrow> False
      | Ref t a \<Rightarrow> t = QueryStringQuery \<and> A a \<and> Query_text s a = w)"
| "denotes_on A s q (PConjunction ts) =
     (case q of NilQuery \<Rightarrow> False
      | Ref t a \<Rightarrow> t = ConjunctionQuery \<and> A a \<and> denotes_list_on A s (elems (Conjuncts s a)) ts)"
| "denotes_on A s q (PDisjunction ts) =
     (case q of NilQuery \<Rightarrow> False
      | Ref t a \<Rightarrow> t = DisjunctionQuery \<and> A a \<and> denotes_list_on A s (elems (Disjuncts s a)) ts)"
| "denotes_on A s q (PBoolean m sh mn) =
     (case q of NilQuery \<Rightarrow> False
      | Ref t a \<Rightarrow> t = BooleanQuery \<and> A a \<and> denotes_on A s (Must s a) m
          \<and> denotes_on A s (Should s a) sh \<and> denotes_on A s (MustNot s a) mn)"
| "denotes_list_on A s qs [] = (qs = [])"
| "denotes_list_on A s qs (t # ts) =
     (case qs of [] \<Rightarrow> False | q # qs' \<Rightarrow> denotes_on A s q t \<and> denotes_list_on A s qs' ts)"

definition denotes :: "store \<Rightarrow> Query \<Rightarrow> ptree \<Rightarrow> bool" where
  "denotes s q t = denotes_on (\<lambda>a. a < next_free s) s q t"

text \<open>
  The frame of a run: \<open>same_at s s' a\<close> says that the struct at \<open>a\<close> is in \<open>s'\<close> as it is in
  \<open>s\<close>; \<open>frame lo hi s s'\<close> says that from \<open>s\<close> to \<open>s'\<close> only the structs at the addresses from
  \<open>lo\<close> up to \<open>hi\<close> and the structs allocated since \<open>s\<close> have changed.
\<close>

definition same_at :: "store \<Rightarrow> store \<Rightarrow> addr \<Rightarrow> bool" where
  "same_at s s' a =
     (Query_text s' a = Query_text s a \<and> Conjuncts s' a = Conjuncts s a
      \<and> Disjuncts s' a = Disjuncts s a \<and> Must s' a = Must s a
      \<and> Should s' a = Should s a \<and> MustNot s' a = MustNot s a)"

definition frame :: "addr \<Rightarrow> addr \<Rightarrow> store \<Rightarrow> store \<Rightarrow> bool" where
  "frame lo hi s s' =
     (next_free s \<le> next_free s'
      \<and> (\<forall>a. a < lo \<or> (hi \<le> a \<and> a < next_free s) \<longrightarrow> same_at s s' a))"

text \<open>
  The expansion of the pointer \<open>p\<close>, whose tree \<open>t\<close> was allocated at the addresses from
  \<open>lo\<close> up to \<open>hi\<close>, agrees with the expansion of \<open>t\<close>: both run out of fuel, both fail with
  the same error, or both succeed, and then the result denotes the expanded tree, only
  the structs of the tree and new ones are written, and a node other than a query string
  is returned as the same pointer. \<open>simulates parse n\<close> says so for every well typed tree
  allocated in a store and every later store that still holds its structs.
\<close>

definition sim_one ::
  "(string \<Rightarrow> string + ptree) \<Rightarrow> nat \<Rightarrow> ptree \<Rightarrow> addr \<Rightarrow> addr \<Rightarrow> Query \<Rightarrow> store \<Rightarrow> bool" where
  "sim_one parse n t lo hi p s =
     (case spec_expand parse n t of
        None \<Rightarrow> expand parse n s p = None
      | Some (Inl err) \<Rightarrow> (\<exists>s'. expand parse n s p = Some (s', Inl err))
      | Some (Inr t') \<Rightarrow>
          (\<exists>s' r. expand parse n s p = Some (s', Inr r) \<and> frame lo hi s s'
             \<and> denotes_on (\<lambda>a. (lo \<le> a \<and> a < hi) \<or> (next_free s \<le> a \<and> a < next_free s')) s' r t'
             \<and> (case t of PQueryString _ \<Rightarrow> True | _ \<Rightarrow> r = p)))"

definition simulates :: "(string \<Rightarrow> string + ptree) \<Rightarrow> nat \<Rightarrow> bool" where
  "simulates parse n =
     (\<forall>t \<sigma> p \<sigma>1 s.
        alloc t \<sigma> = (p, \<sigma>1) \<longrightarrow> well_typed t
        \<longrightarrow> (\<forall>a. next_free \<sigma> \<le> a \<and> a < next_free \<sigma>1 \<longrightarrow> same_at \<sigma>1 s a)
        \<longrightarrow> next_free \<sigma>1 \<le> next_free s
        \<longrightarrow> sim_one parse n t (next_free \<sigma>) (next_free \<sigma>1) p s)"

subsection \<open>A parser that returns a composite, and trees to run the expansion on\<close>

text \<open>
  A second stand-in for the grammar parser: the text \<open>outer\<close> parses to a conjunction of
  the query string \<open>inner\<close> and a match query, the text \<open>inner\<close> to a term query, and any
  other text is an error.
\<close>

definition nested_parse :: "string \<Rightarrow> string + ptree" where
  "nested_parse w =
     (if w = ''outer'' then Inr (PConjunction [PQueryString ''inner'', PLeaf MatchQuery])
      else if w = ''inner'' then Inr (PLeaf TermQuery)
      else Inl ''syntax error'')"

text \<open>A store whose only node is the query string \<open>outer\<close>, at address 0.\<close>

definition nested_store :: store where
  "nested_store =
     empty_store\<lparr>next_free := 1, Query_text := (Query_text empty_store)(0 := ''outer'')\<rparr>"

text \<open>
  A boolean query whose must-slot holds a conjunction of the query string \<open>inner\<close> and a
  match query, whose should-slot holds a disjunction of the query string \<open>outer\<close>, and
  whose must-not slot is absent; and its expansion with the second parser.
\<close>

definition sample_tree :: ptree where
  "sample_tree =
     PBoolean (PConjunction [PQueryString ''inner'', PLeaf MatchQuery])
       (PDisjunction [PQueryString ''outer'']) PNil"

definition expanded_sample_tree :: ptree where
  "expanded_sample_tree =
     PBoolean (PConjunction [PLeaf TermQuery, PLeaf MatchQuery])
       (PDisjunction [PConjunction [PLeaf TermQuery, PLeaf MatchQuery]]) PNil"

text \<open>
  A third stand-in, a flat one: the empty text is an error and any other text parses to
  a boolean query whose should-slot holds a disjunction of one match query. With it, a
  boolean query whose must-slot holds the query string \<open>beer\<close>, and a store whose only node
  is that query string, at address 0.
\<close>

definition flat_parse :: "string \<Rightarrow> string + ptree" where
  "flat_parse w =
     (if w = [] then Inl ''empty query''
      else Inr (PBoolean PNil (PDisjunction [PLeaf MatchQuery]) PNil))"

definition flat_tree :: ptree where
  "flat_tree = PBoolean (PQueryString ''beer'') PNil PNil"

definition beer_store :: store where
  "beer_store =
     empty_store\<lparr>next_free := 1, Query_text := (Query_text empty_store)(0 := ''beer'')\<rparr>"

section \<open>A JSON library to run the decoders on\<close>

text \<open>
  Modelled from the spec: the decoding that \<open>util.UnmarshalJSON\<close> does, which is declared
  outside the sources at hand. The input is a JSON document; it is "first decoded into a
  generic key-presence map (keys to raw values, value types distinguishable as absent /
  null / number / string / object / array)". A member written twice keeps its last
  value; the document \<open>null\<close> leaves the map nil, which reads as the empty map; any other
  document is a type mismatch.
\<close>

definition json_to_map :: "'n jvalue \<Rightarrow> error + (string \<rightharpoonup> 'n jvalue)" where
  "json_to_map input =
     (case input of
        JObj kvs \<Rightarrow> Inr (map_of (rev kvs))
      | JNull \<Rightarrow> Inr Map.empty
      | _ \<Rightarrow> Inl UnmarshalTypeError)"

text \<open>
  Modelled from the spec: the struct values of the variants whose shape the specification
  describes: a numeric range and a term range with their \<open>min\<close> and \<open>max\<close>, a phrase with a
  list of terms, a multi-term phrase with a "list-of-alternatives per position". The
  structs of the other variants are kept as the undecoded document.
\<close>

datatype 'n fields =
    NumericRange "'n option" "'n option"
  | TermRange "string option" "string option"
  | Phrase "string list"
  | MultiPhrase "string list list"
  | Undecoded "'n jvalue"

definition number_field :: "'n jvalue option \<Rightarrow> error + 'n option" where
  "number_field v =
     (case v of
        None \<Rightarrow> Inr None
      | Some JNull \<Rightarrow> Inr None
      | Some (JNum x) \<Rightarrow> Inr (Some x)
      | _ \<Rightarrow> Inl UnmarshalTypeError)"

definition string_field :: "'n jvalue option \<Rightarrow> error + string option" where
  "string_field v =
     (case v of
        None \<Rightarrow> Inr None
      | Some JNull \<Rightarrow> Inr None
      | Some (JStr x) \<Rightarrow> Inr (Some x)
      | _ \<Rightarrow> Inl UnmarshalTypeError)"

fun strings_of :: "'n jvalue list \<Rightarrow> error + string list" where
  "strings_of [] = Inr []"
| "strings_of (JStr x # vs) =
     (case strings_of vs of Inl err \<Rightarrow> Inl err | Inr xs \<Rightarrow> Inr (x # xs))"
| "strings_of (_ # vs) = Inl UnmarshalTypeError"

fun string_lists_of :: "'n jvalue list \<Rightarrow> error + string list list" where
  "string_lists_of [] = Inr []"
| "string_lists_of (JArr v # vs) =
     (case strings_of v of
        Inl err \<Rightarrow> Inl err
      | Inr x \<Rightarrow> (case string_lists_of vs of Inl err \<Rightarrow> Inl err | Inr xs \<Rightarrow> Inr (x # xs)))"
| "string_lists_of (_ # vs) = Inl UnmarshalTypeError"

definition json_into :: "qtype \<Rightarrow> 'n jvalue \<Rightarrow> error + 'n fields" where
  "json_into t input =
     (case json_to_map input of
        Inl err \<Rightarrow> Inl err
      | Inr m \<Rightarrow>
         if t = NumericRangeQuery then
           (case number_field (m ''min'') of
              Inl err \<Rightarrow> Inl err
            | Inr lo \<Rightarrow>
               (case number_field (m ''max'') of
                  Inl err \<Rightarrow> Inl err
                | Inr hi \<Rightarrow> Inr (NumericRange lo hi)))
         else if t = TermRangeQuery then
           (case string_field (m ''min'') of
              Inl err \<Rightarrow> Inl err
            | Inr lo \<Rightarrow>
               (case string_field (m ''max'') of
                  Inl err \<Rightarrow> Inl err
                | Inr hi \<Rightarrow> Inr (TermRange lo hi)))
         else if t = PhraseQuery then
           (case m ''terms'' of
              Some (JArr vs) \<Rightarrow>
                (case strings_of vs of Inl err \<Rightarrow> Inl err | Inr xs \<Rightarrow> Inr (Phrase xs))
            | _ \<Rightarrow> Inl UnmarshalTypeError)
         else if t = MultiPhraseQuery then
           (case m ''terms'' of
              Some (JArr vs) \<Rightarrow>
                (case string_lists_of vs of
                   Inl err \<Rightarrow> Inl err
                 | Inr xs \<Rightarrow> Inr (MultiPhrase xs))
            | _ \<Rightarrow> Inl UnmarshalTypeError)
         else Inr (Undecoded input))"

text \<open>
  Modelled from the spec: the decoding of the pre-search document into its members, each
  kept raw, and of one raw member into "a list of match-candidate records", the value
  being "possibly absent/null, yielding an empty payload". The records stay undecoded.
\<close>

fun members :: "(string \<times> 'n jvalue) list \<Rightarrow> (string \<times> 'n jvalue option) list" where
  "members [] = []"
| "members ((k, v) # kvs) =
     (if k \<in> fst ` set kvs then members kvs else (k, Some v) # members kvs)"

definition json_to_raw :: "'n jvalue \<Rightarrow> error + (string \<times> 'n jvalue option) list" where
  "json_to_raw input =
     (case input of
        JObj kvs \<Rightarrow> Inr (members kvs)
      | JNull \<Rightarrow> Inr []
      | _ \<Rightarrow> Inl UnmarshalTypeError)"

definition json_to_matches :: "'n jvalue \<Rightarrow> error + 'n jvalue list option" where
  "json_to_matches v =
     (case v of
        JNull \<Rightarrow> Inr None
      | JArr vs \<Rightarrow>
          (if list_all (\<lambda>d. case d of JObj _ \<Rightarrow> True | JNull \<Rightarrow> True | _ \<Rightarrow> False) vs
           then Inr (Some vs) else Inl UnmarshalTypeError)
      | _ \<Rightarrow> Inl UnmarshalTypeError)"

text \<open>
  A value of a key that is absent, or present with a dynamic type other than \<open>float64\<close> and
  \<open>string\<close>: \<open>nil\<close>, \<open>bool\<close>, a slice or a map.
\<close>

definition absent_or_other :: "'n jvalue option \<Rightarrow> bool" where
  "absent_or_other v =
     (case v of None \<Rightarrow> True | Some (JNum _) \<Rightarrow> False | Some (JStr _) \<Rightarrow> False | Some _ \<Rightarrow> True)"

section \<open>Properties of the decoder\<close>

lemma has_present: "has tmp k = present k tmp"
  by (auto simp: has_def present_def)

lemma is_float64_present: "is_float64 (tmp k) = present_as_number k tmp"
  by (simp add: is_float64_def present_as_number_def)

lemma is_string_present: "is_string (tmp k) = present_as_string k tmp"
  by (simp add: is_string_def present_as_string_def)

lemma select_Cons:
  "(case map_option snd (find (\<lambda>(p, t). p tmp) ((p, t) # rest)) of
      None \<Rightarrow> n | Some t \<Rightarrow> f t) =
   (if p tmp then f t
    else (case map_option snd (find (\<lambda>(p, t). p tmp) rest) of None \<Rightarrow> n | Some t \<Rightarrow> f t))"
  by simp

lemma select_Nil:
  "(case map_option snd (find (\<lambda>(p, t). p tmp) []) of None \<Rightarrow> n | Some t \<Rightarrow> f t) = n"
  by simp

lemma spec_branch_Phrase:
  "spec_branch into PhraseQuery input =
     (case into PhraseQuery input of
        Inl err \<Rightarrow>
          (case into MultiPhraseQuery input of
             Inl err2 \<Rightarrow> Inl err2
           | Inr rv2 \<Rightarrow> Inr (MultiPhraseQuery, rv2))
      | Inr rv \<Rightarrow> Inr (PhraseQuery, rv))"
  by (simp add: spec_branch_def decode_as_def split: sum.splits)

lemma spec_branch_other:
  "t \<noteq> PhraseQuery \<Longrightarrow> spec_branch into t input = decode_as into t input"
  by (simp add: spec_branch_def)

lemma ParseQuery_select:
  assumes "to_map input = Inr tmp"
  shows "ParseQuery to_map into input =
           (case spec_select tmp of
              None \<Rightarrow> Inl (Errorf ''unknown query type'')
            | Some t \<Rightarrow> spec_branch into t input)"
  unfolding ParseQuery_def spec_select_def spec_cascade_def Let_def select_Cons select_Nil
    has_present is_float64_present is_string_present
  by (simp add: assms spec_branch_Phrase spec_branch_other
      del: find.simps split del: if_split cong del: if_weak_cong)

text \<open>
  Claim C1. For every input, \<open>ParseQuery\<close> is the cascade of section 4.2 of the
  specification: the input is decoded into the key map, the first entry of the ordered
  list of predicates that holds of the map selects the branch, and the result is the
  strict decode of that branch (with the multi-term fallback of step 4), or the unknown
  type error when no entry holds. The selection reads the key map only, which has no
  order of keys, so an input that satisfies the predicates of two variants decodes to
  the one that comes first in the list, whatever the order of its members.
\<close>
theorem ParseQuery_is_cascade:
  "ParseQuery to_map into input = spec_decode to_map into input"
proof (cases "to_map input")
  case (Inl e)
  then show ?thesis by (simp add: ParseQuery_def spec_decode_def)
next
  case (Inr tmp)
  then show ?thesis by (simp add: ParseQuery_select spec_decode_def)
qed

theorem ParseQuery_is_cascade_witness:
  "spec_decode json_to_map json_into (JObj [(''match'', JStr ''x''), (''fuzziness'', JNum (1::int))])
     = Inr (MatchQuery, Undecoded (JObj [(''match'', JStr ''x''), (''fuzziness'', JNum 1)]))
   \<and> spec_decode json_to_map json_into (JObj [(''fuzziness'', JNum (1::int)), (''match'', JStr ''x'')])
     = Inr (MatchQuery, Undecoded (JObj [(''fuzziness'', JNum 1), (''match'', JStr ''x'')]))"
proof -
  have a: "ParseQuery json_to_map json_into (JObj [(''match'', JStr ''x''), (''fuzziness'', JNum (1::int))])
     = Inr (MatchQuery, Undecoded (JObj [(''match'', JStr ''x''), (''fuzziness'', JNum 1)]))"
    by (simp add: ParseQuery_def json_to_map_def json_into_def has_def decode_as_def)
  have b: "ParseQuery json_to_map json_into (JObj [(''fuzziness'', JNum (1::int)), (''match'', JStr ''x'')])
     = Inr (MatchQuery, Undecoded (JObj [(''fuzziness'', JNum 1), (''match'', JStr ''x'')]))"
    by (simp add: ParseQuery_def json_to_map_def json_into_def has_def decode_as_def)
  show ?thesis
    using a b
      ParseQuery_is_cascade [of json_to_map json_into "JObj [(''match'', JStr ''x''), (''fuzziness'', JNum (1::int))]"]
      ParseQuery_is_cascade [of json_to_map json_into "JObj [(''fuzziness'', JNum (1::int)), (''match'', JStr ''x'')]"]
    by simp
qed

text \<open>
  Claim C9. When no predicate of the cascade holds of the decoded key map (as for the
  empty object), \<open>ParseQuery\<close> returns no query but the error made by \<open>fmt.Errorf\<close> with the
  fixed message \<open>unknown query type\<close>, which names no variant.
\<close>
theorem ParseQuery_unknown:
  assumes "to_map input = Inr tmp" and "spec_select tmp = None"
  shows "ParseQuery to_map into input = Inl (Errorf ''unknown query type'')"
  using assms by (simp add: ParseQuery_select)

lemma spec_select_empty: "spec_select Map.empty = None"
  by (simp add: spec_select_def spec_cascade_def present_def present_as_number_def
      present_as_string_def)

theorem ParseQuery_unknown_witness:
  "json_to_map (JObj []) = Inr (Map.empty :: string \<rightharpoonup> int jvalue)
   \<and> spec_select (Map.empty :: string \<rightharpoonup> int jvalue) = None
   \<and> ParseQuery json_to_map json_into (JObj [])
       = (Inl (Errorf ''unknown query type'') :: error + qtype \<times> int fields)"
proof -
  have m: "json_to_map (JObj []) = Inr (Map.empty :: string \<rightharpoonup> int jvalue)"
    by (simp add: json_to_map_def)
  from ParseQuery_unknown [where to_map = json_to_map and into = json_into, OF m spec_select_empty]
    m spec_select_empty
  show ?thesis by simp
qed

lemma if_Some_eq_None: "((if c then Some x else y) = None) = (\<not> c \<and> y = None)"
  by simp

lemma absent_or_other_float64: "absent_or_other v \<Longrightarrow> \<not> is_float64 v"
  by (auto simp: absent_or_other_def is_float64_def split: option.splits jvalue.splits)

lemma absent_or_other_string: "absent_or_other v \<Longrightarrow> \<not> is_string v"
  by (auto simp: absent_or_other_def is_string_def split: option.splits jvalue.splits)

lemma not_float64_None: "\<not> is_float64 None"
  by (simp add: is_float64_def)

lemma not_string_None: "\<not> is_string None"
  by (simp add: is_string_def)

text \<open>
  Claim C10. When \<open>min\<close> or \<open>max\<close> is present and each of the two is absent or holds a value
  that is neither a number nor a string, the two range predicates answer as they do for
  an absent key; if no other predicate of the cascade holds either, \<open>ParseQuery\<close> returns
  the unknown type error, not an error of a range decode.
\<close>

theorem ParseQuery_min_max_other_kind:
  assumes "to_map input = Inr tmp"
    and "present ''min'' tmp \<or> present ''max'' tmp"
    and "absent_or_other (tmp ''min'')" and "absent_or_other (tmp ''max'')"
    and "find (\<lambda>(p, t). p tmp)
           (filter (\<lambda>(p, t). t \<noteq> NumericRangeQuery \<and> t \<noteq> TermRangeQuery) spec_cascade) = None"
  shows "is_float64 (tmp ''min'') = is_float64 None \<and> is_float64 (tmp ''max'') = is_float64 None
       \<and> is_string (tmp ''min'') = is_string None \<and> is_string (tmp ''max'') = is_string None
       \<and> ParseQuery to_map into input = Inl (Errorf ''unknown query type'')"
proof -
  have k: "\<not> is_float64 (tmp ''min'')" "\<not> is_float64 (tmp ''max'')"
      "\<not> is_string (tmp ''min'')" "\<not> is_string (tmp ''max'')"
    using assms(3,4) by (simp_all add: absent_or_other_float64 absent_or_other_string)
  have "spec_select tmp = None"
    using assms(5) k
    by (auto simp add: spec_select_def spec_cascade_def if_Some_eq_None
        is_float64_present is_string_present simp del: find_None_iff find_None_iff2)
  then have "ParseQuery to_map into input = Inl (Errorf ''unknown query type'')"
    using assms(1) by (simp add: ParseQuery_select)
  then show ?thesis using k by (simp add: not_float64_None not_string_None)
qed

theorem ParseQuery_min_max_other_kind_witness:
  "json_to_map (JObj [(''min'', JNull), (''max'', JArr [])])
      = Inr [''min'' \<mapsto> JNull, ''max'' \<mapsto> JArr [] :: int jvalue]
   \<and> present ''min'' [''min'' \<mapsto> JNull, ''max'' \<mapsto> JArr [] :: int jvalue]
   \<and> absent_or_other ([''min'' \<mapsto> JNull, ''max'' \<mapsto> JArr [] :: int jvalue] ''min'')
   \<and> absent_or_other ([''min'' \<mapsto> JNull, ''max'' \<mapsto> JArr [] :: int jvalue] ''max'')
   \<and> ParseQuery json_to_map json_into (JObj [(''min'', JNull), (''max'', JArr [])])
       = (Inl (Errorf ''unknown query type'') :: error + qtype \<times> int fields)"
proof -
  let ?m = "[''min'' \<mapsto> JNull, ''max'' \<mapsto> JArr [] :: int jvalue]"
  have m: "json_to_map (JObj [(''min'', JNull), (''max'', JArr [])]) = Inr ?m"
    by (simp add: json_to_map_def fun_eq_iff)
  have p: "present ''min'' ?m \<or> present ''max'' ?m"
    by (simp add: present_def)
  have a: "absent_or_other (?m ''min'')" and b: "absent_or_other (?m ''max'')"
    by (simp_all add: absent_or_other_def)
  have n: "find (\<lambda>(p, t). p ?m)
           (filter (\<lambda>(p, t). t \<noteq> NumericRangeQuery \<and> t \<noteq> TermRangeQuery) spec_cascade) = None"
    by (simp add: spec_cascade_def present_def del: find_None_iff find_None_iff2)
  have q: "present ''min'' ?m"
    by (simp add: present_def)
  have r: "ParseQuery json_to_map json_into (JObj [(''min'', JNull), (''max'', JArr [])])
       = (Inl (Errorf ''unknown query type'') :: error + qtype \<times> int fields)"
    using ParseQuery_min_max_other_kind [where to_map = json_to_map and into = json_into, OF m p a b n]
    by blast
  show ?thesis
    using m q a b r by blast
qed

text \<open>
  Claim C3, as stated, fails: with \<open>match\<close> present beside \<open>terms\<close>, the input is decoded as
  a \<open>MatchQuery\<close> and no decode as \<open>PhraseQuery\<close> decides the result, although that decode
  would succeed.
\<close>

theorem terms_with_match_counterexample:
  "json_to_map (JObj [(''match'', JStr ''x''), (''terms'', JArr [JStr ''a''])])
     = Inr [''match'' \<mapsto> JStr ''x'', ''terms'' \<mapsto> JArr [JStr ''a''] :: int jvalue]
   \<and> has [''match'' \<mapsto> JStr ''x'', ''terms'' \<mapsto> JArr [JStr ''a''] :: int jvalue] ''terms''
   \<and> json_into PhraseQuery (JObj [(''match'', JStr ''x''), (''terms'', JArr [JStr ''a''])])
     = Inr (Phrase [''a''] :: int fields)
   \<and> ParseQuery json_to_map json_into (JObj [(''match'', JStr ''x''), (''terms'', JArr [JStr ''a''])])
     = Inr (MatchQuery,
            Undecoded (JObj [(''match'', JStr ''x''), (''terms'', JArr [JStr ''a''])]) :: int fields)"
  by (simp add: ParseQuery_def json_to_map_def json_into_def has_def decode_as_def fun_eq_iff)

text \<open>
  Claim C3, amended. For every input in which \<open>terms\<close> is present and neither \<open>match\<close> nor
  \<open>match_phrase\<close> is, \<open>ParseQuery\<close> returns the strict decode as \<open>PhraseQuery\<close> when it
  succeeds; when it fails, it returns the strict decode as \<open>MultiPhraseQuery\<close>: that
  variant on success, that decode's error on failure.
\<close>

theorem ParseQuery_terms:
  assumes "to_map input = Inr tmp" and "has tmp ''terms''"
    and "\<not> has tmp ''match''" and "\<not> has tmp ''match_phrase''"
  shows "ParseQuery to_map into input =
           (case into PhraseQuery input of
              Inr rv \<Rightarrow> Inr (PhraseQuery, rv)
            | Inl err \<Rightarrow>
                (case into MultiPhraseQuery input of
                   Inl err2 \<Rightarrow> Inl err2
                 | Inr rv2 \<Rightarrow> Inr (MultiPhraseQuery, rv2)))"
  using assms by (simp add: ParseQuery_def split: sum.splits)

theorem ParseQuery_terms_witness:
  "json_to_map (JObj [(''terms'', JArr [JArr [JStr ''a'', JStr ''b''], JArr [JStr ''c'']])])
     = Inr [''terms'' \<mapsto> JArr [JArr [JStr ''a'', JStr ''b''], JArr [JStr ''c'']] :: int jvalue]
   \<and> has [''terms'' \<mapsto> JArr [JArr [JStr ''a'', JStr ''b''], JArr [JStr ''c'']] :: int jvalue] ''terms''
   \<and> \<not> has [''terms'' \<mapsto> JArr [JArr [JStr ''a'', JStr ''b''], JArr [JStr ''c'']] :: int jvalue] ''match''
   \<and> \<not> has [''terms'' \<mapsto> JArr [JArr [JStr ''a'', JStr ''b''], JArr [JStr ''c'']] :: int jvalue]
         ''match_phrase''
   \<and> ParseQuery json_to_map json_into
        (JObj [(''terms'', JArr [JArr [JStr ''a'', JStr ''b''], JArr [JStr ''c'']])])
     = Inr (MultiPhraseQuery, MultiPhrase [[''a'', ''b''], [''c'']] :: int fields)"
proof -
  let ?x = "JObj [(''terms'', JArr [JArr [JStr ''a'', JStr ''b''], JArr [JStr ''c'']])] :: int jvalue"
  let ?m = "[''terms'' \<mapsto> JArr [JArr [JStr ''a'', JStr ''b''], JArr [JStr ''c'']] :: int jvalue]"
  have m: "json_to_map ?x = Inr ?m"
    by (simp add: json_to_map_def)
  have t: "has ?m ''terms''" and a: "\<not> has ?m ''match''" and b: "\<not> has ?m ''match_phrase''"
    by (simp_all add: has_def)
  have "ParseQuery json_to_map json_into ?x
          = Inr (MultiPhraseQuery, MultiPhrase [[''a'', ''b''], [''c'']])"
    using ParseQuery_terms [where to_map = json_to_map and into = json_into, OF m t a b]
    by (simp add: json_into_def json_to_map_def)
  then show ?thesis using m t a b by blast
qed

text \<open>
  Claim C5, as stated, fails: with \<open>term\<close> present beside a numeric \<open>min\<close>, the input is
  decoded as a \<open>TermQuery\<close>, not as a numeric range.
\<close>

theorem min_with_term_counterexample:
  "json_to_map (JObj [(''term'', JStr ''x''), (''min'', JNum 5)])
     = Inr [''term'' \<mapsto> JStr ''x'', ''min'' \<mapsto> JNum (5::int)]
   \<and> is_float64 ([''term'' \<mapsto> JStr ''x'', ''min'' \<mapsto> JNum (5::int)] ''min'')
   \<and> ParseQuery json_to_map json_into (JObj [(''term'', JStr ''x''), (''min'', JNum 5)])
     = Inr (TermQuery, Undecoded (JObj [(''term'', JStr ''x''), (''min'', JNum (5::int))]))"
  by (simp add: ParseQuery_def json_to_map_def json_into_def has_def decode_as_def fun_eq_iff
      is_float64_def)

lemma first_nine_None:
  assumes "find (\<lambda>(p, t). p tmp) (take 9 spec_cascade) = None"
  shows "\<not> has tmp ''fuzziness'' \<and> \<not> has tmp ''match'' \<and> \<not> has tmp ''match_phrase''
       \<and> \<not> has tmp ''terms'' \<and> \<not> has tmp ''term'' \<and> \<not> has tmp ''must'' \<and> \<not> has tmp ''should''
       \<and> \<not> has tmp ''must_not'' \<and> \<not> has tmp ''conjuncts'' \<and> \<not> has tmp ''disjuncts''
       \<and> \<not> has tmp ''query''"
  using assms
  by (auto simp add: spec_cascade_def if_Some_eq_None has_present
      simp del: find_None_iff find_None_iff2)

text \<open>
  Claim C5, amended. For every input of which no predicate of steps 1 to 9 holds: when
  \<open>min\<close> or \<open>max\<close> holds a number, \<open>ParseQuery\<close> returns the strict decode as
  \<open>NumericRangeQuery\<close>; when neither holds a number and \<open>min\<close> or \<open>max\<close> holds a string, it
  returns the strict decode as \<open>TermRangeQuery\<close>. The same keys thus select different
  variants by the dynamic type of their values.
\<close>

theorem ParseQuery_range_dispatch:
  assumes "to_map input = Inr tmp"
    and "find (\<lambda>(p, t). p tmp) (take 9 spec_cascade) = None"
  shows "(is_float64 (tmp ''min'') \<or> is_float64 (tmp ''max'')
            \<longrightarrow> ParseQuery to_map into input = decode_as into NumericRangeQuery input)
       \<and> (\<not> is_float64 (tmp ''min'') \<and> \<not> is_float64 (tmp ''max'')
            \<and> (is_string (tmp ''min'') \<or> is_string (tmp ''max''))
            \<longrightarrow> ParseQuery to_map into input = decode_as into TermRangeQuery input)"
  using assms(1) first_nine_None [OF assms(2)]
  by (simp add: ParseQuery_def)

theorem ParseQuery_range_dispatch_witness:
  "json_to_map (JObj [(''min'', JNum 5), (''max'', JNum 10)])
     = Inr [''min'' \<mapsto> JNum 5, ''max'' \<mapsto> JNum (10::int)]
   \<and> find (\<lambda>(p, t). p [''min'' \<mapsto> JNum 5, ''max'' \<mapsto> JNum (10::int)]) (take 9 spec_cascade) = None
   \<and> is_float64 ([''min'' \<mapsto> JNum 5, ''max'' \<mapsto> JNum (10::int)] ''min'')
   \<and> ParseQuery json_to_map json_into (JObj [(''min'', JNum 5), (''max'', JNum 10)])
     = Inr (NumericRangeQuery, NumericRange (Some 5) (Some (10::int)))
   \<and> json_to_map (JObj [(''min'', JStr ''a''), (''max'', JStr ''z'')])
     = Inr [''min'' \<mapsto> JStr ''a'', ''max'' \<mapsto> JStr ''z'' :: int jvalue]
   \<and> find (\<lambda>(p, t). p [''min'' \<mapsto> JStr ''a'', ''max'' \<mapsto> JStr ''z'' :: int jvalue])
        (take 9 spec_cascade) = None
   \<and> \<not> is_float64 ([''min'' \<mapsto> JStr ''a'', ''max'' \<mapsto> JStr ''z'' :: int jvalue] ''min'')
   \<and> \<not> is_float64 ([''min'' \<mapsto> JStr ''a'', ''max'' \<mapsto> JStr ''z'' :: int jvalue] ''max'')
   \<and> is_string ([''min'' \<mapsto> JStr ''a'', ''max'' \<mapsto> JStr ''z'' :: int jvalue] ''min'')
   \<and> ParseQuery json_to_map json_into (JObj [(''min'', JStr ''a''), (''max'', JStr ''z'')])
     = Inr (TermRangeQuery, TermRange (Some ''a'') (Some ''z'') :: int fields)"
proof -
  let ?x1 = "JObj [(''min'', JNum 5), (''max'', JNum (10::int))]"
  let ?m1 = "[''min'' \<mapsto> JNum 5, ''max'' \<mapsto> JNum (10::int)]"
  let ?x2 = "JObj [(''min'', JStr ''a''), (''max'', JStr ''z'')] :: int jvalue"
  let ?m2 = "[''min'' \<mapsto> JStr ''a'', ''max'' \<mapsto> JStr ''z'' :: int jvalue]"
  have m1: "json_to_map ?x1 = Inr ?m1" and m2: "json_to_map ?x2 = Inr ?m2"
    by (simp_all add: json_to_map_def fun_eq_iff)
  have n1: "find (\<lambda>(p, t). p ?m1) (take 9 spec_cascade) = None"
    and n2: "find (\<lambda>(p, t). p ?m2) (take 9 spec_cascade) = None"
    by (simp_all add: spec_cascade_def present_def del: find_None_iff find_None_iff2)
  have k1: "is_float64 (?m1 ''min'')"
    and k2: "\<not> is_float64 (?m2 ''min'')" "\<not> is_float64 (?m2 ''max'')" "is_string (?m2 ''min'')"
    by (simp_all add: is_float64_def is_string_def)
  have r1: "ParseQuery json_to_map json_into ?x1
              = Inr (NumericRangeQuery, NumericRange (Some 5) (Some (10::int)))"
    using ParseQuery_range_dispatch [where to_map = json_to_map and into = json_into, OF m1 n1] k1
    by (simp add: decode_as_def json_into_def json_to_map_def number_field_def)
  have r2: "ParseQuery json_to_map json_into ?x2
              = Inr (TermRangeQuery, TermRange (Some ''a'') (Some ''z'') :: int fields)"
    using ParseQuery_range_dispatch [where to_map = json_to_map and into = json_into, OF m2 n2] k2
    by (simp add: decode_as_def json_into_def json_to_map_def string_field_def)
  show ?thesis
    using m1 n1 k1 r1 m2 n2 k2 r2 by blast
qed

section \<open>Properties of the pre-search decoder\<close>

lemma presearch_range_skip:
  "presearch_range key to_matches kvs rv =
     presearch_range key to_matches (filter (\<lambda>kv. fst kv = key) kvs) rv"
  by (induction kvs arbitrary: rv) (auto split: sum.splits)

lemma filter_key_empty:
  "key \<notin> fst ` set kvs \<Longrightarrow> filter (\<lambda>kv. fst kv = key) kvs = []"
  by (induction kvs) auto

text \<open>
  Claim C4, as stated, fails: on an input with unrecognized keys only, the result is the
  nil map that was declared and never made, not an empty map that was made.
\<close>

theorem only_unrecognized_counterexample:
  "ParsePreSearchData ''_knn_pre_search_data_key'' json_to_raw json_to_matches
       (JObj [(''unrelated'', JNum (1::int))]) = Inr None
   \<and> ParsePreSearchData ''_knn_pre_search_data_key'' json_to_raw json_to_matches
       (JObj [(''unrelated'', JNum (1::int))]) \<noteq> Inr (Some Map.empty)"
  by (simp add: ParsePreSearchData_def json_to_raw_def)

text \<open>
  Claim C4, amended. \<open>ParsePreSearchData\<close> skips every entry whose key is not the reserved
  key: its result is that of the loop over the entries with the reserved key alone. With
  no such entry it succeeds and returns the nil map, which has no entries; with the
  reserved key holding \<open>null\<close> (a value that decodes to the nil slice) it succeeds and
  returns a map holding the reserved key with the nil slice as payload.
\<close>

theorem ParsePreSearchData_permissive:
  assumes "to_raw input = Inr tmp"
  shows "ParsePreSearchData key to_raw to_matches input =
           presearch_range key to_matches (filter (\<lambda>kv. fst kv = key) tmp) None
       \<and> (key \<notin> fst ` set tmp \<longrightarrow> ParsePreSearchData key to_raw to_matches input = Inr None)
       \<and> (\<forall>raw. filter (\<lambda>kv. fst kv = key) tmp = [(key, Some raw)] \<and> to_matches raw = Inr None
             \<longrightarrow> ParsePreSearchData key to_raw to_matches input = Inr (Some [key \<mapsto> None]))"
proof -
  have a: "ParsePreSearchData key to_raw to_matches input =
           presearch_range key to_matches (filter (\<lambda>kv. fst kv = key) tmp) None"
    using assms presearch_range_skip [of key to_matches tmp None]
    by (simp add: ParsePreSearchData_def)
  have b: "ParsePreSearchData key to_raw to_matches input = Inr None"
    if "key \<notin> fst ` set tmp"
    using a that by (simp add: filter_key_empty)
  have c: "ParsePreSearchData key to_raw to_matches input = Inr (Some [key \<mapsto> None])"
    if "filter (\<lambda>kv. fst kv = key) tmp = [(key, Some raw)]" and "to_matches raw = Inr None"
    for raw
    using a that by simp
  from a b c show ?thesis by blast
qed

theorem ParsePreSearchData_permissive_witness:
  "json_to_raw (JObj [(''unrelated'', JNum (1::int)), (''_knn_pre_search_data_key'', JNull)])
      = Inr [(''unrelated'', Some (JNum 1)), (''_knn_pre_search_data_key'', Some JNull)]
   \<and> filter (\<lambda>kv. fst kv = ''_knn_pre_search_data_key'')
        [(''unrelated'', Some (JNum (1::int))), (''_knn_pre_search_data_key'', Some JNull)]
      = [(''_knn_pre_search_data_key'', Some JNull)]
   \<and> json_to_matches (JNull :: int jvalue) = Inr None
   \<and> ParsePreSearchData ''_knn_pre_search_data_key'' json_to_raw json_to_matches
        (JObj [(''unrelated'', JNum (1::int)), (''_knn_pre_search_data_key'', JNull)])
      = Inr (Some [''_knn_pre_search_data_key'' \<mapsto> None])
   \<and> json_to_raw (JObj [(''unrelated'', JNum (1::int))]) = Inr [(''unrelated'', Some (JNum 1))]
   \<and> ''_knn_pre_search_data_key'' \<notin> fst ` set [(''unrelated'', Some (JNum (1::int)))]
   \<and> ParsePreSearchData ''_knn_pre_search_data_key'' json_to_raw json_to_matches
        (JObj [(''unrelated'', JNum (1::int))]) = Inr None"
proof -
  let ?k = "''_knn_pre_search_data_key''"
  let ?x1 = "JObj [(''unrelated'', JNum (1::int)), (?k, JNull)]"
  let ?t1 = "[(''unrelated'', Some (JNum (1::int))), (?k, Some JNull)]"
  let ?x2 = "JObj [(''unrelated'', JNum (1::int))]"
  let ?t2 = "[(''unrelated'', Some (JNum (1::int)))]"
  have r1: "json_to_raw ?x1 = Inr ?t1" and r2: "json_to_raw ?x2 = Inr ?t2"
    by (simp_all add: json_to_raw_def)
  have f1: "filter (\<lambda>kv. fst kv = ?k) ?t1 = [(?k, Some JNull)]"
    by simp
  have n: "json_to_matches (JNull :: int jvalue) = Inr None"
    by (simp add: json_to_matches_def)
  have f2: "?k \<notin> fst ` set ?t2"
    by simp
  have p1: "ParsePreSearchData ?k json_to_raw json_to_matches ?x1 = Inr (Some [?k \<mapsto> None])"
    using ParsePreSearchData_permissive
      [where to_raw = json_to_raw and to_matches = json_to_matches and key = ?k, OF r1] f1 n
    by blast
  have p2: "ParsePreSearchData ?k json_to_raw json_to_matches ?x2 = Inr None"
    using ParsePreSearchData_permissive
      [where to_raw = json_to_raw and to_matches = json_to_matches and key = ?k, OF r2] f2
    by blast
  show ?thesis
    using r1 f1 n p1 r2 f2 p2 by blast
qed

section \<open>Properties of the expansion\<close>

lemma expand_NilQuery: "expand parse (Suc fuel) s NilQuery = Some (s, Inr NilQuery)"
  by simp

lemma expand_other:
  assumes "t \<noteq> QueryStringQuery" "t \<noteq> ConjunctionQuery" "t \<noteq> DisjunctionQuery" "t \<noteq> BooleanQuery"
  shows "expand parse (Suc fuel) s (Ref t q) = Some (s, Inr (Ref t q))"
  using assms by simp

lemma expandSlice_spec:
  "expandSlice child s qs acc =
     (case spec_expand_children child s qs of
        None \<Rightarrow> None
      | Some (s', Inl err) \<Rightarrow> Some (s', Inl err)
      | Some (s', Inr xs) \<Rightarrow> Some (s', Inr (acc @ xs)))"
proof (induction qs arbitrary: s acc)
  case Nil
  show ?case by simp
next
  case (Cons q qs)
  show ?case
  proof (cases "child s q")
    case None
    then show ?thesis by simp
  next
    case (Some r)
    obtain s1 x where r: "r = (s1, x)" by (cases r)
    show ?thesis
    proof (cases x)
      case (Inl err)
      with Some r show ?thesis by simp
    next
      case (Inr e)
      with Some r Cons.IH [of s1 "acc @ [e]"] show ?thesis
        by (simp split: option.splits sum.splits prod.splits)
    qed
  qed
qed

lemma extends_refl: "extends s s"
  by (simp add: extends_def)

lemma extends_trans: "extends s s1 \<Longrightarrow> extends s1 s2 \<Longrightarrow> extends s s2"
  by (auto simp: extends_def)

lemma alloc_extends:
  "alloc t s = (q, s') \<Longrightarrow> extends s s'"
  "alloc_list ts s = (qs, s') \<Longrightarrow> extends s s'"
proof (induction t s and ts s arbitrary: q s' and qs s' rule: alloc_alloc_list.induct)
  case (1 s)
  then show ?case by (simp add: extends_refl)
next
  case (2 t s)
  then show ?case by (auto simp: extends_def)
next
  case (3 w s)
  then show ?case by (auto simp: extends_def)
next
  case (4 ts s)
  obtain qs s1 where a: "alloc_list ts s = (qs, s1)" by (cases "alloc_list ts s")
  from "4.IH" [OF a] have "extends s s1" .
  moreover have "extends s1 s'" using "4.prems" a by (auto simp: extends_def)
  ultimately show ?case by (rule extends_trans)
next
  case (5 ts s)
  obtain qs s1 where a: "alloc_list ts s = (qs, s1)" by (cases "alloc_list ts s")
  from "5.IH" [OF a] have "extends s s1" .
  moreover have "extends s1 s'" using "5.prems" a by (auto simp: extends_def)
  ultimately show ?case by (rule extends_trans)
next
  case (6 m sh mn s)
  obtain qm s1 where a: "alloc m s = (qm, s1)" by (cases "alloc m s")
  obtain qsh s2 where b: "alloc sh s1 = (qsh, s2)" by (cases "alloc sh s1")
  obtain qmn s3 where c: "alloc mn s2 = (qmn, s3)" by (cases "alloc mn s2")
  have "extends s s1" using "6.IH"(1) a by simp
  moreover have "extends s1 s2" using "6.IH"(2) a b by simp
  moreover have "extends s2 s3" using "6.IH"(3) a b c by simp
  moreover have "extends s3 s'" using "6.prems" a b c by (auto simp: extends_def)
  ultimately show ?case by (blast intro: extends_trans)
next
  case (7 s)
  then show ?case by (simp add: extends_refl)
next
  case (8 t ts s)
  obtain q1 s1 where a: "alloc t s = (q1, s1)" by (cases "alloc t s")
  obtain qs1 s2 where b: "alloc_list ts s1 = (qs1, s2)" by (cases "alloc_list ts s1")
  have "extends s s1" using "8.IH"(1) a by simp
  moreover have "extends s1 s2" using "8.IH"(2) a b by simp
  moreover have "s' = s2" using "8.prems" a b by simp
  ultimately show ?case by (blast intro: extends_trans)
qed

lemma slots_absent_extends:
  "slots_absent m sh mn a s \<Longrightarrow> extends s s' \<Longrightarrow> slots_absent m sh mn a s'"
  by (auto simp: slots_absent_def extends_def)

lemma spec_expand_children_invariant:
  assumes step: "\<forall>s q s' r. I s \<longrightarrow> child s q = Some (s', r) \<longrightarrow> I s'"
  shows "I s \<Longrightarrow> spec_expand_children child s qs = Some (s', r) \<Longrightarrow> I s'"
proof (induction qs arbitrary: s s' r)
  case Nil
  then show ?case by simp
next
  case (Cons q qs)
  from Cons.prems(2) obtain s1 r1 where c: "child s q = Some (s1, r1)"
    by (cases "child s q") auto
  have i1: "I s1" using step Cons.prems(1) c by blast
  show ?case
  proof (cases r1)
    case (Inl err)
    with Cons.prems(2) c i1 show ?thesis by simp
  next
    case (Inr e)
    with Cons.prems(2) c obtain s2 r2 where
      d: "spec_expand_children child s1 qs = Some (s2, r2)" and e: "s' = s2"
      by (auto split: option.splits sum.splits)
    from Cons.IH [OF i1 d] e show ?thesis by simp
  qed
qed

lemma expandSlice_invariant:
  assumes "\<forall>s q s' r. I s \<longrightarrow> child s q = Some (s', r) \<longrightarrow> I s'"
    and "I s" and "expandSlice child s qs acc = Some (s', r)"
  shows "I s'"
proof -
  from assms(3) obtain r' where "spec_expand_children child s qs = Some (s', r')"
    by (auto simp: expandSlice_spec [of child s qs acc] split: option.splits sum.splits)
  with spec_expand_children_invariant [OF assms(1) assms(2)] show ?thesis by blast
qed

lemma expand_NilQuery_Some:
  "expand parse n s NilQuery = Some (s', r) \<Longrightarrow> s' = s \<and> r = Inr NilQuery"
  by (cases n) auto

lemma slots_absent_Conjuncts:
  "slots_absent m sh mn a (s\<lparr>Conjuncts := c\<rparr>) = slots_absent m sh mn a s"
  by (simp add: slots_absent_def)

lemma slots_absent_Disjuncts:
  "slots_absent m sh mn a (s\<lparr>Disjuncts := c\<rparr>) = slots_absent m sh mn a s"
  by (simp add: slots_absent_def)

lemma expand_slots_absent:
  "slots_absent m sh mn a s \<Longrightarrow> expand parse n s q = Some (s', r :: error + Query)
     \<Longrightarrow> slots_absent m sh mn a s'"
proof (induction n arbitrary: s q s' r)
  case 0
  then show ?case by simp
next
  case (Suc n)
  have IH: "\<forall>s q s' (r :: error + Query).
              slots_absent m sh mn a s \<longrightarrow> expand parse n s q = Some (s', r)
              \<longrightarrow> slots_absent m sh mn a s'"
    using Suc.IH by blast
  note I = Suc.prems(1)
  note e = Suc.prems(2)
  show ?case
  proof (cases q)
    case NilQuery
    with e I show ?thesis by simp
  next
    case (Ref t b)
    consider (qs) "t = QueryStringQuery" | (conj) "t = ConjunctionQuery"
      | (disj) "t = DisjunctionQuery" | (bool) "t = BooleanQuery"
      | (other) "t \<noteq> QueryStringQuery" "t \<noteq> ConjunctionQuery" "t \<noteq> DisjunctionQuery"
          "t \<noteq> BooleanQuery"
      by blast
    then show ?thesis
    proof cases
      case qs
      show ?thesis
      proof (cases "parse (Query_text s b)")
        case (Inl msg)
        with e Ref qs I show ?thesis by simp
      next
        case (Inr tree)
        obtain p s1 where al: "alloc tree s = (p, s1)" by (cases "alloc tree s")
        have "slots_absent m sh mn a s1"
          using I alloc_extends(1) [OF al] by (rule slots_absent_extends)
        moreover have "expand parse n s1 p = Some (s', r)"
          using e Ref qs Inr al by simp
        ultimately show ?thesis using IH by blast
      qed
    next
      case conj
      from e Ref conj obtain s1 and r1 :: "error + Query list" where
        sl: "expandSlice (expand parse n) s (elems (Conjuncts s b)) [] = Some (s1, r1)"
        and s': "s' = s1 \<or> s' = s1\<lparr>Conjuncts := Conjuncts s'\<rparr>"
        by (auto split: option.splits sum.splits)
      have "slots_absent m sh mn a s1"
        using expandSlice_invariant [OF IH I sl] .
      with s' slots_absent_Conjuncts [where s = s1 and c = "Conjuncts s'"] show ?thesis by auto
    next
      case disj
      from e Ref disj obtain s1 and r1 :: "error + Query list" where
        sl: "expandSlice (expand parse n) s (elems (Disjuncts s b)) [] = Some (s1, r1)"
        and s': "s' = s1 \<or> s' = s1\<lparr>Disjuncts := Disjuncts s'\<rparr>"
        by (auto split: option.splits sum.splits)
      have "slots_absent m sh mn a s1"
        using expandSlice_invariant [OF IH I sl] .
      with s' slots_absent_Disjuncts [where s = s1 and c = "Disjuncts s'"] show ?thesis by auto
    next
      case bool
      from e Ref bool obtain s1 and r1 :: "error + Query" where
        p1: "expand parse n s (Must s b) = Some (s1, r1)"
        by (auto split: option.splits)
      define s1' where "s1' = s1\<lparr>Must := (Must s1)(b := returned r1)\<rparr>"
      have i1: "slots_absent m sh mn a s1" using IH I p1 by blast
      have w1: "returned r1 = NilQuery" if "b = a" "m"
        using that I p1 expand_NilQuery_Some [of parse n s s1 r1]
        by (auto simp: slots_absent_def returned_def)
      have i1': "slots_absent m sh mn a s1'"
        using i1 w1 by (auto simp: slots_absent_def s1'_def)
      show ?thesis
      proof (cases r1)
        case (Inl err)
        with e Ref bool p1 have "s' = s1'" by (auto simp: s1'_def Let_def)
        with i1' show ?thesis by simp
      next
        case r1: (Inr m1)
        from e Ref bool p1 r1 obtain s2 and r2 :: "error + Query" where
          p2: "expand parse n s1' (Should s1' b) = Some (s2, r2)"
          by (auto simp: s1'_def Let_def split: option.splits)
        define s2' where "s2' = s2\<lparr>Should := (Should s2)(b := returned r2)\<rparr>"
        have i2: "slots_absent m sh mn a s2" using IH i1' p2 by blast
        have w2: "returned r2 = NilQuery" if "b = a" "sh"
          using that i1' p2 expand_NilQuery_Some [of parse n s1' s2 r2]
          by (auto simp: slots_absent_def returned_def)
        have i2': "slots_absent m sh mn a s2'"
          using i2 w2 by (auto simp: slots_absent_def s2'_def)
        show ?thesis
        proof (cases r2)
          case (Inl err)
          with e Ref bool p1 r1 p2 have "s' = s2'" by (auto simp: s1'_def s2'_def Let_def)
          with i2' show ?thesis by simp
        next
          case r2: (Inr m2)
          from e Ref bool p1 r1 p2 r2 obtain s3 and r3 :: "error + Query" where
            p3: "expand parse n s2' (MustNot s2' b) = Some (s3, r3)"
            and s': "s' = s3\<lparr>MustNot := (MustNot s3)(b := returned r3)\<rparr>"
            by (auto simp: s1'_def s2'_def Let_def split: option.splits sum.splits)
          have i3: "slots_absent m sh mn a s3" using IH i2' p3 by blast
          have w3: "returned r3 = NilQuery" if "b = a" "mn"
            using that i2' p3 expand_NilQuery_Some [of parse n s2' s3 r3]
            by (auto simp: slots_absent_def returned_def)
          show ?thesis
            using i3 w3 s' by (auto simp: slots_absent_def)
        qed
      qed
    next
      case other
      with e Ref I show ?thesis by simp
    qed
  qed
qed

lemma expand_same_pointer:
  "expand parse n s (Ref t q) = Some (s', Inr r) \<Longrightarrow> t \<noteq> QueryStringQuery \<Longrightarrow> r = Ref t q"
  by (cases n) (auto simp: Let_def split: if_splits option.splits sum.splits prod.splits)

lemma expand_result_expanded:
  "expand parse n s q = Some (s', Inr r) \<Longrightarrow> expanded_value (Some r)"
proof (induction n arbitrary: s q)
  case 0
  then show ?case by simp
next
  case (Suc n)
  show ?case
  proof (cases q)
    case NilQuery
    with Suc.prems show ?thesis by (auto simp: expanded_value_def)
  next
    case (Ref t b)
    show ?thesis
    proof (cases "t = QueryStringQuery")
      case True
      with Suc.prems Ref obtain p s1 where "expand parse n s1 p = Some (s', Inr r)"
        by (auto split: sum.splits prod.splits)
      then show ?thesis by (rule Suc.IH)
    next
      case False
      with Suc.prems Ref expand_same_pointer [of parse "Suc n" s t b s' r]
      have "r = Ref t b" by blast
      with False show ?thesis by (simp add: expanded_value_def)
    qed
  qed
qed

lemma expand_expanded_value:
  assumes "expand parse n s x = Some (s', Inr r)" and "expanded_value (Some x)"
  shows "r = x"
proof (cases x)
  case NilQuery
  with assms(1) expand_NilQuery_Some [of parse n s s' "Inr r"] show ?thesis by simp
next
  case (Ref t b)
  with assms expand_same_pointer [of parse n s t b s' r] show ?thesis
    by (simp add: expanded_value_def)
qed

lemma spec_expand_children_invariant_Inr:
  assumes step: "\<forall>s q s' r. I s \<longrightarrow> child s q = Some (s', Inr r) \<longrightarrow> I s'"
  shows "I s \<Longrightarrow> spec_expand_children child s qs = Some (s', Inr xs) \<Longrightarrow> I s'"
proof (induction qs arbitrary: s s' xs)
  case Nil
  then show ?case by simp
next
  case (Cons q qs)
  from Cons.prems(2) obtain s1 e ys where c: "child s q = Some (s1, Inr e)"
    and d: "spec_expand_children child s1 qs = Some (s', Inr ys)"
    by (auto split: option.splits sum.splits)
  have "I s1" using step Cons.prems(1) c by blast
  then show ?case using d by (rule Cons.IH)
qed

lemma expandSlice_invariant_Inr:
  assumes "\<forall>s q s' r. I s \<longrightarrow> child s q = Some (s', Inr r) \<longrightarrow> I s'"
    and "I s" and "expandSlice child s qs acc = Some (s', Inr xs)"
  shows "I s'"
proof -
  from assms(3) obtain ys where "spec_expand_children child s qs = Some (s', Inr ys)"
    by (auto simp: expandSlice_spec [of child s qs acc] split: option.splits sum.splits)
  with spec_expand_children_invariant_Inr [OF assms(1) assms(2)] show ?thesis by blast
qed

lemma expand_Boolean_Inr:
  assumes "expand parse (Suc n) s (Ref BooleanQuery b) = Some (s', Inr r)"
  shows "\<exists>s1 m s2 sh s3 mn.
           expand parse n s (Must s b) = Some (s1, Inr m)
         \<and> expand parse n (s1\<lparr>Must := (Must s1)(b := m)\<rparr>) (Should s1 b) = Some (s2, Inr sh)
         \<and> expand parse n (s2\<lparr>Should := (Should s2)(b := sh)\<rparr>) (MustNot s2 b) = Some (s3, Inr mn)
         \<and> s' = s3\<lparr>MustNot := (MustNot s3)(b := mn)\<rparr> \<and> r = Ref BooleanQuery b"
  using assms
  by (auto simp: Let_def returned_def split: option.splits sum.splits)

lemma slots_hold_extends:
  "slots_hold m sh a s \<Longrightarrow> extends s s' \<Longrightarrow> slots_hold m sh a s'"
  by (auto simp: slots_hold_def extends_def split: option.splits)

lemma slots_hold_Conjuncts: "slots_hold m sh a (s\<lparr>Conjuncts := c\<rparr>) = slots_hold m sh a s"
  by (simp add: slots_hold_def split: option.splits)

lemma slots_hold_Disjuncts: "slots_hold m sh a (s\<lparr>Disjuncts := c\<rparr>) = slots_hold m sh a s"
  by (simp add: slots_hold_def split: option.splits)

lemma slots_hold_MustNot: "slots_hold m sh a (s\<lparr>MustNot := c\<rparr>) = slots_hold m sh a s"
  by (simp add: slots_hold_def split: option.splits)

lemma expand_slots_hold:
  assumes xm: "expanded_value m" and xsh: "expanded_value sh"
  shows "slots_hold m sh a s \<Longrightarrow> expand parse n s q = Some (s', Inr r)
           \<Longrightarrow> slots_hold m sh a s'"
proof (induction n arbitrary: s q s' r)
  case 0
  then show ?case by simp
next
  case (Suc n)
  have IH: "\<forall>s q s' r. slots_hold m sh a s \<longrightarrow> expand parse n s q = Some (s', Inr r)
              \<longrightarrow> slots_hold m sh a s'"
    using Suc.IH by blast
  note I = Suc.prems(1)
  note e = Suc.prems(2)
  show ?case
  proof (cases q)
    case NilQuery
    with e I show ?thesis by simp
  next
    case (Ref t b)
    consider (qs) "t = QueryStringQuery" | (conj) "t = ConjunctionQuery"
      | (disj) "t = DisjunctionQuery" | (bool) "t = BooleanQuery"
      | (other) "t \<noteq> QueryStringQuery" "t \<noteq> ConjunctionQuery" "t \<noteq> DisjunctionQuery"
          "t \<noteq> BooleanQuery"
      by blast
    then show ?thesis
    proof cases
      case qs
      from e Ref qs obtain tree p s1 where al: "alloc tree s = (p, s1)"
        and ex: "expand parse n s1 p = Some (s', Inr r)"
        by (auto split: sum.splits prod.splits)
      have "slots_hold m sh a s1"
        using I alloc_extends(1) [OF al] by (rule slots_hold_extends)
      with ex IH show ?thesis by blast
    next
      case conj
      from e Ref conj obtain s1 xs where
        sl: "expandSlice (expand parse n) s (elems (Conjuncts s b)) [] = Some (s1, Inr xs)"
        and s': "s' = s1\<lparr>Conjuncts := Conjuncts s'\<rparr>"
        by (auto split: option.splits sum.splits)
      have "slots_hold m sh a s1"
        using expandSlice_invariant_Inr [OF IH I sl] .
      with s' slots_hold_Conjuncts [where s = s1 and c = "Conjuncts s'"] show ?thesis by auto
    next
      case disj
      from e Ref disj obtain s1 xs where
        sl: "expandSlice (expand parse n) s (elems (Disjuncts s b)) [] = Some (s1, Inr xs)"
        and s': "s' = s1\<lparr>Disjuncts := Disjuncts s'\<rparr>"
        by (auto split: option.splits sum.splits)
      have "slots_hold m sh a s1"
        using expandSlice_invariant_Inr [OF IH I sl] .
      with s' slots_hold_Disjuncts [where s = s1 and c = "Disjuncts s'"] show ?thesis by auto
    next
      case bool
      from e Ref bool expand_Boolean_Inr [of parse n s b s' r]
      obtain s1 m1 s2 sh1 s3 mn1 where
        p1: "expand parse n s (Must s b) = Some (s1, Inr m1)"
        and p2: "expand parse n (s1\<lparr>Must := (Must s1)(b := m1)\<rparr>) (Should s1 b) = Some (s2, Inr sh1)"
        and p3: "expand parse n (s2\<lparr>Should := (Should s2)(b := sh1)\<rparr>) (MustNot s2 b)
                   = Some (s3, Inr mn1)"
        and s': "s' = s3\<lparr>MustNot := (MustNot s3)(b := mn1)\<rparr>"
        by auto
      have i1: "slots_hold m sh a s1" using IH I p1 by blast
      have w1: "m1 = x" if "b = a" "m = Some x" for x
      proof -
        have "Must s b = x" using that I by (simp add: slots_hold_def)
        moreover have "expanded_value (Some x)" using xm that by simp
        ultimately show ?thesis using p1 expand_expanded_value by metis
      qed
      have i1': "slots_hold m sh a (s1\<lparr>Must := (Must s1)(b := m1)\<rparr>)"
        using i1 w1 by (auto simp: slots_hold_def split: option.splits)
      have i2: "slots_hold m sh a s2" using IH i1' p2 by blast
      have w2: "sh1 = x" if "b = a" "sh = Some x" for x
      proof -
        have "Should s1 b = x" using that i1 by (simp add: slots_hold_def)
        moreover have "expanded_value (Some x)" using xsh that by simp
        ultimately show ?thesis using p2 expand_expanded_value by metis
      qed
      have i2': "slots_hold m sh a (s2\<lparr>Should := (Should s2)(b := sh1)\<rparr>)"
        using i2 w2 by (auto simp: slots_hold_def split: option.splits)
      have i3: "slots_hold m sh a s3" using IH i2' p3 by blast
      then show ?thesis using s' by (simp add: slots_hold_MustNot)
    next
      case other
      with e Ref I show ?thesis by simp
    qed
  qed
qed

lemma expand_Boolean_slots:
  assumes "b < next_free s"
    and "expand parse (Suc n) s (Ref BooleanQuery b) = Some (s', Inr r)"
  shows "\<exists>s1 m s2 sh s3 mn.
           expand parse n s (Must s b) = Some (s1, Inr m)
         \<and> expand parse n (s1\<lparr>Must := (Must s1)(b := m)\<rparr>) (Should s1 b) = Some (s2, Inr sh)
         \<and> expand parse n (s2\<lparr>Should := (Should s2)(b := sh)\<rparr>) (MustNot s2 b) = Some (s3, Inr mn)
         \<and> s' = s3\<lparr>MustNot := (MustNot s3)(b := mn)\<rparr> \<and> r = Ref BooleanQuery b
         \<and> Must s' b = m \<and> Should s' b = sh \<and> MustNot s' b = mn"
proof -
  from expand_Boolean_Inr [OF assms(2)]
  obtain s1 m1 s2 sh1 s3 mn1 where
    p1: "expand parse n s (Must s b) = Some (s1, Inr m1)"
    and p2: "expand parse n (s1\<lparr>Must := (Must s1)(b := m1)\<rparr>) (Should s1 b) = Some (s2, Inr sh1)"
    and p3: "expand parse n (s2\<lparr>Should := (Should s2)(b := sh1)\<rparr>) (MustNot s2 b)
               = Some (s3, Inr mn1)"
    and s': "s' = s3\<lparr>MustNot := (MustNot s3)(b := mn1)\<rparr>" and r: "r = Ref BooleanQuery b"
    by auto
  have x0: "expanded_value None" by (simp add: expanded_value_def)
  have xm: "expanded_value (Some m1)" using p1 by (rule expand_result_expanded)
  have xsh: "expanded_value (Some sh1)" using p2 by (rule expand_result_expanded)
  have "slots_hold None None b s" using assms(1) by (simp add: slots_hold_def)
  then have "slots_hold None None b s1"
    using p1 by (rule expand_slots_hold [OF x0 x0])
  then have "slots_hold (Some m1) None b (s1\<lparr>Must := (Must s1)(b := m1)\<rparr>)"
    by (simp add: slots_hold_def)
  then have "slots_hold (Some m1) None b s2"
    using p2 by (rule expand_slots_hold [OF xm x0])
  then have "slots_hold (Some m1) (Some sh1) b (s2\<lparr>Should := (Should s2)(b := sh1)\<rparr>)"
    by (simp add: slots_hold_def)
  then have "slots_hold (Some m1) (Some sh1) b s3"
    using p3 by (rule expand_slots_hold [OF xm xsh])
  then have "Must s' b = m1 \<and> Should s' b = sh1 \<and> MustNot s' b = mn1"
    using s' by (simp add: slots_hold_def)
  with p1 p2 p3 s' r show ?thesis by blast
qed

lemma expand_Conjunction_spec:
  "expand parse (Suc fuel) s (Ref ConjunctionQuery q) =
     (case spec_expand_children (expand parse fuel) s (elems (Conjuncts s q)) of
        None \<Rightarrow> None
      | Some (s1, Inl err) \<Rightarrow> Some (s1, Inl err)
      | Some (s1, Inr children) \<Rightarrow>
          Some (s1\<lparr>Conjuncts := (Conjuncts s1)(q := Some children)\<rparr>,
                Inr (Ref ConjunctionQuery q)))"
  by (simp add: expandSlice_spec [of _ _ _ "[]"] split: option.splits sum.splits)

lemma expand_Disjunction_spec:
  "expand parse (Suc fuel) s (Ref DisjunctionQuery q) =
     (case spec_expand_children (expand parse fuel) s (elems (Disjuncts s q)) of
        None \<Rightarrow> None
      | Some (s1, Inl err) \<Rightarrow> Some (s1, Inl err)
      | Some (s1, Inr children) \<Rightarrow>
          Some (s1\<lparr>Disjuncts := (Disjuncts s1)(q := Some children)\<rparr>,
                Inr (Ref DisjunctionQuery q)))"
  by (simp add: expandSlice_spec [of _ _ _ "[]"] split: option.splits sum.splits)

subsection \<open>The expansion in the store refines the expansion of the tree\<close>

lemma same_at_refl: "same_at s s a"
  by (simp add: same_at_def)

lemma same_at_trans: "same_at s s1 a \<Longrightarrow> same_at s1 s2 a \<Longrightarrow> same_at s s2 a"
  by (simp add: same_at_def)

lemma extends_same_at: "extends s s' \<Longrightarrow> a < next_free s \<Longrightarrow> same_at s s' a"
  by (simp add: extends_def same_at_def)

lemma extends_next_free: "extends s s' \<Longrightarrow> next_free s \<le> next_free s'"
  by (simp add: extends_def)

lemma same_at_sym_trans: "same_at s1 s2 a \<Longrightarrow> same_at s1 s a \<Longrightarrow> same_at s2 s a"
  by (simp add: same_at_def)

lemma frame_refl: "frame lo hi s s"
  by (simp add: frame_def same_at_refl)

lemma denotes_on_transfer:
  "denotes_on A s q t \<Longrightarrow> (\<forall>a. A a \<longrightarrow> B a \<and> same_at s s' a) \<Longrightarrow> denotes_on B s' q t"
  "denotes_list_on A s qs ts \<Longrightarrow> (\<forall>a. A a \<longrightarrow> B a \<and> same_at s s' a)
     \<Longrightarrow> denotes_list_on B s' qs ts"
proof (induction A s q t and A s qs ts rule: denotes_on_denotes_list_on.induct)
  case (1 A s q)
  then show ?case by simp
next
  case (2 A s q ty)
  then show ?case by simp
next
  case (3 A s q w)
  then show ?case by (auto simp: same_at_def split: Query.splits)
next
  case (4 A s q ts)
  then show ?case by (auto simp: same_at_def split: Query.splits)
next
  case (5 A s q ts)
  then show ?case by (auto simp: same_at_def split: Query.splits)
next
  case (6 A s q m sh mn)
  then show ?case by (auto simp: same_at_def split: Query.splits)
next
  case (7 A s qs)
  then show ?case by simp
next
  case (8 A s qs t ts)
  then show ?case by (auto split: list.splits)
qed

lemma sim_children:
  assumes sim: "simulates parse n"
  shows "alloc_list ts \<sigma> = (qs, \<sigma>k) \<Longrightarrow> well_typed_list ts
    \<Longrightarrow> (\<forall>a. next_free \<sigma> \<le> a \<and> a < next_free \<sigma>k \<longrightarrow> same_at \<sigma>k s a)
    \<Longrightarrow> next_free \<sigma>k \<le> next_free s
    \<Longrightarrow> (case spec_expand_list (spec_expand parse n) ts of
          None \<Rightarrow> spec_expand_children (expand parse n) s qs = None
        | Some (Inl err) \<Rightarrow> (\<exists>s'. spec_expand_children (expand parse n) s qs = Some (s', Inl err))
        | Some (Inr ts') \<Rightarrow>
            (\<exists>s' rs. spec_expand_children (expand parse n) s qs = Some (s', Inr rs)
               \<and> frame (next_free \<sigma>) (next_free \<sigma>k) s s'
               \<and> denotes_list_on (\<lambda>a. (next_free \<sigma> \<le> a \<and> a < next_free \<sigma>k)
                                     \<or> (next_free s \<le> a \<and> a < next_free s')) s' rs ts'))"
proof (induction ts arbitrary: \<sigma> qs s)
  case Nil
  then show ?case by (simp add: frame_refl)
next
  case (Cons t ts)
  obtain q \<sigma>a where al: "alloc t \<sigma> = (q, \<sigma>a)" by (cases "alloc t \<sigma>")
  obtain qs' \<sigma>b where all: "alloc_list ts \<sigma>a = (qs', \<sigma>b)" by (cases "alloc_list ts \<sigma>a")
  from Cons.prems(1) al all have qs: "qs = q # qs'" and \<sigma>b: "\<sigma>b = \<sigma>k" by simp_all
  note all = all [unfolded \<sigma>b]
  from Cons.prems(2) have wt: "well_typed t" and wts: "well_typed_list ts" by simp_all
  have e1: "extends \<sigma> \<sigma>a" using al by (rule alloc_extends(1))
  have e2: "extends \<sigma>a \<sigma>k" using all by (rule alloc_extends(2))
  have n1: "next_free \<sigma> \<le> next_free \<sigma>a" and n2: "next_free \<sigma>a \<le> next_free \<sigma>k"
    using e1 e2 by (simp_all add: extends_next_free)
  note n3 = Cons.prems(4)
  have ag: "\<forall>a. next_free \<sigma> \<le> a \<and> a < next_free \<sigma>a \<longrightarrow> same_at \<sigma>a s a"
  proof (intro allI impI)
    fix a assume a: "next_free \<sigma> \<le> a \<and> a < next_free \<sigma>a"
    then have "same_at \<sigma>k s a" using Cons.prems(3) n2 by auto
    moreover have "same_at \<sigma>a \<sigma>k a" using e2 a by (simp add: extends_same_at)
    ultimately show "same_at \<sigma>a s a" by (simp add: same_at_def)
  qed
  have one: "sim_one parse n t (next_free \<sigma>) (next_free \<sigma>a) q s"
    using sim al wt ag n2 n3 unfolding simulates_def by (meson le_trans)
  show ?case
  proof (cases "spec_expand parse n t")
    case None
    with one qs show ?thesis by (simp add: sim_one_def)
  next
    case (Some o1)
    show ?thesis
    proof (cases o1)
      case (Inl err)
      with Some one qs show ?thesis by (auto simp: sim_one_def)
    next
      case (Inr t')
      from Some Inr one obtain s1 r where
        x1: "expand parse n s q = Some (s1, Inr r)"
        and f1: "frame (next_free \<sigma>) (next_free \<sigma>a) s s1"
        and d1: "denotes_on (\<lambda>a. (next_free \<sigma> \<le> a \<and> a < next_free \<sigma>a)
                              \<or> (next_free s \<le> a \<and> a < next_free s1)) s1 r t'"
        by (auto simp: sim_one_def)
      have n4: "next_free s \<le> next_free s1" using f1 by (simp add: frame_def)
      have ag': "\<forall>a. next_free \<sigma>a \<le> a \<and> a < next_free \<sigma>k \<longrightarrow> same_at \<sigma>k s1 a"
      proof (intro allI impI)
        fix a assume a: "next_free \<sigma>a \<le> a \<and> a < next_free \<sigma>k"
        then have "same_at \<sigma>k s a" using Cons.prems(3) n1 by auto
        moreover have "same_at s s1 a" using f1 a n3 by (auto simp: frame_def)
        ultimately show "same_at \<sigma>k s1 a" by (rule same_at_trans)
      qed
      have n5: "next_free \<sigma>k \<le> next_free s1" using n3 n4 by simp
      note IH = Cons.IH [OF all wts ag' n5]
      show ?thesis
      proof (cases "spec_expand_list (spec_expand parse n) ts")
        case None
        with IH Some Inr x1 qs show ?thesis by simp
      next
        case o2: (Some o2)
        show ?thesis
        proof (cases o2)
          case (Inl err)
          with IH o2 Some Inr x1 qs show ?thesis by auto
        next
          case r2: (Inr ts')
          from IH o2 r2 obtain s' rs where
            x2: "spec_expand_children (expand parse n) s1 qs' = Some (s', Inr rs)"
            and f2: "frame (next_free \<sigma>a) (next_free \<sigma>k) s1 s'"
            and d2: "denotes_list_on (\<lambda>a. (next_free \<sigma>a \<le> a \<and> a < next_free \<sigma>k)
                                   \<or> (next_free s1 \<le> a \<and> a < next_free s')) s' rs ts'"
            by auto
          have n6: "next_free s1 \<le> next_free s'" using f2 by (simp add: frame_def)
          let ?A = "\<lambda>a. (next_free \<sigma> \<le> a \<and> a < next_free \<sigma>k)
                       \<or> (next_free s \<le> a \<and> a < next_free s')"
          have x: "spec_expand_children (expand parse n) s qs = Some (s', Inr (r # rs))"
            using x1 x2 qs by simp
          have f: "frame (next_free \<sigma>) (next_free \<sigma>k) s s'"
            unfolding frame_def
          proof (intro conjI allI impI)
            show "next_free s \<le> next_free s'" using n4 n6 by simp
          next
            fix a assume a: "a < next_free \<sigma> \<or> (next_free \<sigma>k \<le> a \<and> a < next_free s)"
            have "same_at s s1 a" using f1 a n2 by (auto simp: frame_def)
            moreover have "same_at s1 s' a" using f2 a n1 n4 by (auto simp: frame_def)
            ultimately show "same_at s s' a" by (rule same_at_trans)
          qed
          have "denotes_on ?A s' r t'"
          proof (rule denotes_on_transfer(1) [OF d1], intro allI impI)
            fix a
            assume a: "(next_free \<sigma> \<le> a \<and> a < next_free \<sigma>a)
                        \<or> (next_free s \<le> a \<and> a < next_free s1)"
            have "same_at s1 s' a" using f2 a n3 by (auto simp: frame_def)
            moreover have "?A a" using a n2 n6 by auto
            ultimately show "?A a \<and> same_at s1 s' a" by simp
          qed
          moreover have "denotes_list_on ?A s' rs ts'"
          proof (rule denotes_on_transfer(2) [OF d2], intro allI impI)
            fix a
            assume a: "(next_free \<sigma>a \<le> a \<and> a < next_free \<sigma>k)
                        \<or> (next_free s1 \<le> a \<and> a < next_free s')"
            have "?A a" using a n1 n4 by auto
            then show "?A a \<and> same_at s' s' a" by (simp add: same_at_refl)
          qed
          ultimately have "denotes_list_on ?A s' (r # rs) (t' # ts')" by simp
          with x f Some Inr o2 r2 show ?thesis by auto
        qed
      qed
    qed
  qed
qed

lemma frame_weaken:
  "frame lo1 hi1 s s' \<Longrightarrow> lo \<le> lo1 \<Longrightarrow> hi1 \<le> hi \<Longrightarrow> frame lo hi s s'"
  by (auto simp: frame_def)

lemma frame_trans:
  "frame lo hi s s1 \<Longrightarrow> frame lo hi s1 s2 \<Longrightarrow> frame lo hi s s2"
  unfolding frame_def
  by (metis (no_types, lifting) le_trans less_le_trans same_at_trans)

lemma frame_write:
  assumes "lo \<le> a" and "a < hi"
  shows "frame lo hi s (s\<lparr>Conjuncts := (Conjuncts s)(a := c)\<rparr>)"
    and "frame lo hi s (s\<lparr>Disjuncts := (Disjuncts s)(a := c)\<rparr>)"
    and "frame lo hi s (s\<lparr>Must := (Must s)(a := v)\<rparr>)"
    and "frame lo hi s (s\<lparr>Should := (Should s)(a := v)\<rparr>)"
    and "frame lo hi s (s\<lparr>MustNot := (MustNot s)(a := v)\<rparr>)"
  using assms by (auto simp: frame_def same_at_def)

lemma denotes_on_frame:
  assumes "denotes_on A s q t" and "frame lo hi s s'"
    and "\<forall>b. A b \<longrightarrow> B b \<and> (b < lo \<or> (hi \<le> b \<and> b < next_free s))"
  shows "denotes_on B s' q t"
  using assms(1)
proof (rule denotes_on_transfer(1))
  show "\<forall>a. A a \<longrightarrow> B a \<and> same_at s s' a"
    using assms(2,3) by (auto simp: frame_def)
qed

lemma denotes_list_on_frame:
  assumes "denotes_list_on A s qs ts" and "frame lo hi s s'"
    and "\<forall>b. A b \<longrightarrow> B b \<and> (b < lo \<or> (hi \<le> b \<and> b < next_free s))"
  shows "denotes_list_on B s' qs ts"
  using assms(1)
proof (rule denotes_on_transfer(2))
  show "\<forall>a. A a \<longrightarrow> B a \<and> same_at s s' a"
    using assms(2,3) by (auto simp: frame_def)
qed

lemma simulates_0: "simulates parse 0"
  by (simp add: simulates_def sim_one_def)

lemma sim_step_PNil:
  "alloc PNil \<sigma> = (p, \<sigma>1) \<Longrightarrow> sim_one parse (Suc n) PNil (next_free \<sigma>) (next_free \<sigma>1) p s"
  by (auto simp: sim_one_def frame_refl)

lemma sim_step_PLeaf:
  "alloc (PLeaf ty) \<sigma> = (p, \<sigma>1) \<Longrightarrow> well_typed (PLeaf ty)
     \<Longrightarrow> sim_one parse (Suc n) (PLeaf ty) (next_free \<sigma>) (next_free \<sigma>1) p s"
  by (auto simp: sim_one_def frame_refl)

lemma sim_step_PQueryString:
  assumes sim: "simulates parse n" and pok: "parser_ok parse"
    and al: "alloc (PQueryString w) \<sigma> = (p, \<sigma>1)"
    and ag: "\<forall>a. next_free \<sigma> \<le> a \<and> a < next_free \<sigma>1 \<longrightarrow> same_at \<sigma>1 s a"
    and nf: "next_free \<sigma>1 \<le> next_free s"
  shows "sim_one parse (Suc n) (PQueryString w) (next_free \<sigma>) (next_free \<sigma>1) p s"
proof -
  let ?a = "next_free \<sigma>"
  from al have p: "p = Ref QueryStringQuery ?a" and n1: "next_free \<sigma>1 = Suc ?a"
    and tx: "Query_text \<sigma>1 ?a = w"
    by auto
  from ag n1 have "same_at \<sigma>1 s ?a" by simp
  with tx have txs: "Query_text s ?a = w" by (simp add: same_at_def)
  show ?thesis
  proof (cases "parse w")
    case (Inl msg)
    with p txs show ?thesis by (simp add: sim_one_def)
  next
    case (Inr t2)
    with pok have wt: "well_typed t2" by (auto simp: parser_ok_def)
    obtain p2 s2 where al2: "alloc t2 s = (p2, s2)" by (cases "alloc t2 s")
    have ex: "extends s s2" using al2 by (rule alloc_extends(1))
    have one: "sim_one parse n t2 (next_free s) (next_free s2) p2 s2"
      using sim al2 wt unfolding simulates_def by (meson order_refl same_at_refl)
    have eq: "expand parse (Suc n) s p = expand parse n s2 p2"
      using p txs Inr al2 by simp
    have sp: "spec_expand parse (Suc n) (PQueryString w) = spec_expand parse n t2"
      using Inr by simp
    show ?thesis
    proof (cases "spec_expand parse n t2")
      case None
      with one eq sp show ?thesis by (simp add: sim_one_def)
    next
      case (Some o1)
      show ?thesis
      proof (cases o1)
        case (Inl err)
        with Some one eq sp show ?thesis by (simp add: sim_one_def)
      next
        case r: (Inr t')
        from Some r one obtain s' r' where
          x: "expand parse n s2 p2 = Some (s', Inr r')"
          and f: "frame (next_free s) (next_free s2) s2 s'"
          and d: "denotes_on (\<lambda>a. (next_free s \<le> a \<and> a < next_free s2)
                               \<or> (next_free s2 \<le> a \<and> a < next_free s')) s' r' t'"
          by (auto simp: sim_one_def)
        have n2: "next_free s \<le> next_free s2" using ex by (rule extends_next_free)
        have n3: "next_free s2 \<le> next_free s'" using f by (simp add: frame_def)
        have f': "frame ?a (next_free \<sigma>1) s s'"
          unfolding frame_def
        proof (intro conjI allI impI)
          show "next_free s \<le> next_free s'" using n2 n3 by simp
        next
          fix a assume "a < ?a \<or> (next_free \<sigma>1 \<le> a \<and> a < next_free s)"
          then have a: "a < next_free s" using nf n1 by auto
          then have "same_at s s2 a" using ex by (simp add: extends_same_at)
          moreover have "same_at s2 s' a" using f a by (simp add: frame_def)
          ultimately show "same_at s s' a" by (rule same_at_trans)
        qed
        have d': "denotes_on (\<lambda>a. (?a \<le> a \<and> a < next_free \<sigma>1)
                               \<or> (next_free s \<le> a \<and> a < next_free s')) s' r' t'"
          using d
        proof (rule denotes_on_transfer(1), intro allI impI)
          fix a
          assume "(next_free s \<le> a \<and> a < next_free s2) \<or> (next_free s2 \<le> a \<and> a < next_free s')"
          then have "next_free s \<le> a \<and> a < next_free s'" using n2 n3 by auto
          then show "((?a \<le> a \<and> a < next_free \<sigma>1) \<or> (next_free s \<le> a \<and> a < next_free s'))
                     \<and> same_at s' s' a"
            by (simp add: same_at_refl)
        qed
        from x f' d' eq sp Some r show ?thesis by (simp add: sim_one_def)
      qed
    qed
  qed
qed

lemma sim_step_PConjunction:
  assumes sim: "simulates parse n"
    and al: "alloc (PConjunction ts) \<sigma> = (p, \<sigma>1)"
    and wt: "well_typed_list ts"
    and ag: "\<forall>a. next_free \<sigma> \<le> a \<and> a < next_free \<sigma>1 \<longrightarrow> same_at \<sigma>1 s a"
    and nf: "next_free \<sigma>1 \<le> next_free s"
  shows "sim_one parse (Suc n) (PConjunction ts) (next_free \<sigma>) (next_free \<sigma>1) p s"
proof -
  obtain qs \<sigma>k where all: "alloc_list ts \<sigma> = (qs, \<sigma>k)" by (cases "alloc_list ts \<sigma>")
  let ?a = "next_free \<sigma>k"
  from al all have p: "p = Ref ConjunctionQuery ?a" and n1: "next_free \<sigma>1 = Suc ?a"
    and \<sigma>1: "\<sigma>1 = \<sigma>k\<lparr>next_free := Suc ?a, Conjuncts := (Conjuncts \<sigma>k)(?a := Some qs)\<rparr>"
    by auto
  have ex: "extends \<sigma> \<sigma>k" using all by (rule alloc_extends(2))
  have n0: "next_free \<sigma> \<le> ?a" using ex by (rule extends_next_free)
  from ag n0 n1 have "same_at \<sigma>1 s ?a" by simp
  then have cs: "Conjuncts s ?a = Some qs" using \<sigma>1 by (simp add: same_at_def)
  have agk: "\<forall>a. next_free \<sigma> \<le> a \<and> a < ?a \<longrightarrow> same_at \<sigma>k s a"
  proof (intro allI impI)
    fix a assume a: "next_free \<sigma> \<le> a \<and> a < ?a"
    then have "same_at \<sigma>1 s a" using ag n1 by simp
    then show "same_at \<sigma>k s a" using a \<sigma>1 by (simp add: same_at_def)
  qed
  have nk: "?a \<le> next_free s" using nf n1 by simp
  note ch = sim_children [OF sim all wt agk nk]
  have eq: "expand parse (Suc n) s p =
     (case spec_expand_children (expand parse n) s qs of
        None \<Rightarrow> None
      | Some (s1, Inl err) \<Rightarrow> Some (s1, Inl err)
      | Some (s1, Inr children) \<Rightarrow>
          Some (s1\<lparr>Conjuncts := (Conjuncts s1)(?a := Some children)\<rparr>, Inr p))"
    unfolding p expand_Conjunction_spec by (simp add: cs elems_def)
  show ?thesis
  proof (cases "spec_expand_list (spec_expand parse n) ts")
    case None
    with ch eq show ?thesis by (simp add: sim_one_def)
  next
    case (Some o1)
    show ?thesis
    proof (cases o1)
      case (Inl err)
      with Some ch eq show ?thesis by (auto simp: sim_one_def)
    next
      case (Inr ts')
      from Some Inr ch obtain s1 rs where
        x: "spec_expand_children (expand parse n) s qs = Some (s1, Inr rs)"
        and f: "frame (next_free \<sigma>) ?a s s1"
        and d: "denotes_list_on (\<lambda>a. (next_free \<sigma> \<le> a \<and> a < ?a)
                                 \<or> (next_free s \<le> a \<and> a < next_free s1)) s1 rs ts'"
        by auto
      let ?s' = "s1\<lparr>Conjuncts := (Conjuncts s1)(?a := Some rs)\<rparr>"
      let ?A = "\<lambda>a. (next_free \<sigma> \<le> a \<and> a < next_free \<sigma>1)
                   \<or> (next_free s \<le> a \<and> a < next_free ?s')"
      have x': "expand parse (Suc n) s p = Some (?s', Inr p)"
        using eq x by simp
      have n2: "next_free s \<le> next_free s1" using f by (simp add: frame_def)
      have fw1: "frame ?a (Suc ?a) s1 ?s'"
        by (intro frame_write) simp_all
      have fw: "frame (next_free \<sigma>) (next_free \<sigma>1) s1 ?s'"
        using fw1 n0 n1 by (auto intro: frame_weaken)
      have f': "frame (next_free \<sigma>) (next_free \<sigma>1) s ?s'"
        using frame_weaken [OF f order_refl, of "next_free \<sigma>1"] fw n1
        by (auto intro: frame_trans)
      have dl: "denotes_list_on ?A ?s' rs ts'"
        using d fw1
      proof (rule denotes_list_on_frame, intro allI impI)
        fix b
        assume "(next_free \<sigma> \<le> b \<and> b < ?a) \<or> (next_free s \<le> b \<and> b < next_free s1)"
        then show "?A b \<and> (b < ?a \<or> (Suc ?a \<le> b \<and> b < next_free s1))"
          using n1 nf by auto
      qed
      have "denotes_on ?A ?s' p (PConjunction ts')"
        using dl n0 n1 by (simp add: p elems_def)
      with x' f' have "\<exists>s' r. expand parse (Suc n) s p = Some (s', Inr r)
          \<and> frame (next_free \<sigma>) (next_free \<sigma>1) s s'
          \<and> denotes_on (\<lambda>a. (next_free \<sigma> \<le> a \<and> a < next_free \<sigma>1)
                            \<or> (next_free s \<le> a \<and> a < next_free s')) s' r (PConjunction ts')
          \<and> r = p"
        by blast
      moreover have "spec_expand parse (Suc n) (PConjunction ts) = Some (Inr (PConjunction ts'))"
        using Some Inr by simp
      ultimately show ?thesis by (simp add: sim_one_def del: expand.simps spec_expand.simps)
    qed
  qed
qed

lemma sim_step_PDisjunction:
  assumes sim: "simulates parse n"
    and al: "alloc (PDisjunction ts) \<sigma> = (p, \<sigma>1)"
    and wt: "well_typed_list ts"
    and ag: "\<forall>a. next_free \<sigma> \<le> a \<and> a < next_free \<sigma>1 \<longrightarrow> same_at \<sigma>1 s a"
    and nf: "next_free \<sigma>1 \<le> next_free s"
  shows "sim_one parse (Suc n) (PDisjunction ts) (next_free \<sigma>) (next_free \<sigma>1) p s"
proof -
  obtain qs \<sigma>k where all: "alloc_list ts \<sigma> = (qs, \<sigma>k)" by (cases "alloc_list ts \<sigma>")
  let ?a = "next_free \<sigma>k"
  from al all have p: "p = Ref DisjunctionQuery ?a" and n1: "next_free \<sigma>1 = Suc ?a"
    and \<sigma>1: "\<sigma>1 = \<sigma>k\<lparr>next_free := Suc ?a, Disjuncts := (Disjuncts \<sigma>k)(?a := Some qs)\<rparr>"
    by auto
  have ex: "extends \<sigma> \<sigma>k" using all by (rule alloc_extends(2))
  have n0: "next_free \<sigma> \<le> ?a" using ex by (rule extends_next_free)
  from ag n0 n1 have "same_at \<sigma>1 s ?a" by simp
  then have cs: "Disjuncts s ?a = Some qs" using \<sigma>1 by (simp add: same_at_def)
  have agk: "\<forall>a. next_free \<sigma> \<le> a \<and> a < ?a \<longrightarrow> same_at \<sigma>k s a"
  proof (intro allI impI)
    fix a assume a: "next_free \<sigma> \<le> a \<and> a < ?a"
    then have "same_at \<sigma>1 s a" using ag n1 by simp
    then show "same_at \<sigma>k s a" using a \<sigma>1 by (simp add: same_at_def)
  qed
  have nk: "?a \<le> next_free s" using nf n1 by simp
  note ch = sim_children [OF sim all wt agk nk]
  have eq: "expand parse (Suc n) s p =
     (case spec_expand_children (expand parse n) s qs of
        None \<Rightarrow> None
      | Some (s1, Inl err) \<Rightarrow> Some (s1, Inl err)
      | Some (s1, Inr children) \<Rightarrow>
          Some (s1\<lparr>Disjuncts := (Disjuncts s1)(?a := Some children)\<rparr>, Inr p))"
    unfolding p expand_Disjunction_spec by (simp add: cs elems_def)
  show ?thesis
  proof (cases "spec_expand_list (spec_expand parse n) ts")
    case None
    with ch eq show ?thesis by (simp add: sim_one_def)
  next
    case (Some o1)
    show ?thesis
    proof (cases o1)
      case (Inl err)
      with Some ch eq show ?thesis by (auto simp: sim_one_def)
    next
      case (Inr ts')
      from Some Inr ch obtain s1 rs where
        x: "spec_expand_children (expand parse n) s qs = Some (s1, Inr rs)"
        and f: "frame (next_free \<sigma>) ?a s s1"
        and d: "denotes_list_on (\<lambda>a. (next_free \<sigma> \<le> a \<and> a < ?a)
                                 \<or> (next_free s \<le> a \<and> a < next_free s1)) s1 rs ts'"
        by auto
      let ?s' = "s1\<lparr>Disjuncts := (Disjuncts s1)(?a := Some rs)\<rparr>"
      let ?A = "\<lambda>a. (next_free \<sigma> \<le> a \<and> a < next_free \<sigma>1)
                   \<or> (next_free s \<le> a \<and> a < next_free ?s')"
      have x': "expand parse (Suc n) s p = Some (?s', Inr p)"
        using eq x by simp
      have n2: "next_free s \<le> next_free s1" using f by (simp add: frame_def)
      have fw1: "frame ?a (Suc ?a) s1 ?s'"
        by (intro frame_write) simp_all
      have fw: "frame (next_free \<sigma>) (next_free \<sigma>1) s1 ?s'"
        using fw1 n0 n1 by (auto intro: frame_weaken)
      have f': "frame (next_free \<sigma>) (next_free \<sigma>1) s ?s'"
        using frame_weaken [OF f order_refl, of "next_free \<sigma>1"] fw n1
        by (auto intro: frame_trans)
      have dl: "denotes_list_on ?A ?s' rs ts'"
        using d fw1
      proof (rule denotes_list_on_frame, intro allI impI)
        fix b
        assume "(next_free \<sigma> \<le> b \<and> b < ?a) \<or> (next_free s \<le> b \<and> b < next_free s1)"
        then show "?A b \<and> (b < ?a \<or> (Suc ?a \<le> b \<and> b < next_free s1))"
          using n1 nf by auto
      qed
      have "denotes_on ?A ?s' p (PDisjunction ts')"
        using dl n0 n1 by (simp add: p elems_def)
      with x' f' have "\<exists>s' r. expand parse (Suc n) s p = Some (s', Inr r)
          \<and> frame (next_free \<sigma>) (next_free \<sigma>1) s s'
          \<and> denotes_on (\<lambda>a. (next_free \<sigma> \<le> a \<and> a < next_free \<sigma>1)
                            \<or> (next_free s \<le> a \<and> a < next_free s')) s' r (PDisjunction ts')
          \<and> r = p"
        by blast
      moreover have "spec_expand parse (Suc n) (PDisjunction ts) = Some (Inr (PDisjunction ts'))"
        using Some Inr by simp
      ultimately show ?thesis by (simp add: sim_one_def del: expand.simps spec_expand.simps)
    qed
  qed
qed


lemma expand_Boolean_eq:
  "expand parse (Suc n) s (Ref BooleanQuery a) =
     (case expand parse n s (Must s a) of
        None \<Rightarrow> None
      | Some (s1, Inl err) \<Rightarrow> Some (s1\<lparr>Must := (Must s1)(a := NilQuery)\<rparr>, Inl err)
      | Some (s1, Inr m) \<Rightarrow>
         (case expand parse n (s1\<lparr>Must := (Must s1)(a := m)\<rparr>) (Should s1 a) of
            None \<Rightarrow> None
          | Some (s2, Inl err) \<Rightarrow> Some (s2\<lparr>Should := (Should s2)(a := NilQuery)\<rparr>, Inl err)
          | Some (s2, Inr sh) \<Rightarrow>
             (case expand parse n (s2\<lparr>Should := (Should s2)(a := sh)\<rparr>) (MustNot s2 a) of
                None \<Rightarrow> None
              | Some (s3, Inl err) \<Rightarrow>
                  Some (s3\<lparr>MustNot := (MustNot s3)(a := NilQuery)\<rparr>, Inl err)
              | Some (s3, Inr mn) \<Rightarrow>
                  Some (s3\<lparr>MustNot := (MustNot s3)(a := mn)\<rparr>, Inr (Ref BooleanQuery a)))))"
  by (simp add: Let_def returned_def split: option.splits sum.splits prod.splits)

lemma simulatesD:
  assumes "simulates parse n" and "alloc t \<sigma> = (p, \<sigma>1)" and "well_typed t"
    and "\<And>a. next_free \<sigma> \<le> a \<Longrightarrow> a < next_free \<sigma>1 \<Longrightarrow> same_at \<sigma>1 s a"
    and "next_free \<sigma>1 \<le> next_free s"
  shows "sim_one parse n t (next_free \<sigma>) (next_free \<sigma>1) p s"
  using assms by (simp add: simulates_def)

lemma frame_trans3:
  assumes "frame lo1 hi1 s s1" and "frame lo2 hi2 s1 s2" and "frame lo3 hi3 s2 s3"
    and "lo \<le> lo1" "lo \<le> lo2" "lo \<le> lo3" "hi1 \<le> hi" "hi2 \<le> hi" "hi3 \<le> hi"
  shows "frame lo hi s s3"
proof -
  have "frame lo hi s s1" using assms(1,4,7) by (rule frame_weaken)
  moreover have "frame lo hi s1 s2" using assms(2,5,8) by (rule frame_weaken)
  ultimately have "frame lo hi s s2" by (rule frame_trans)
  moreover have "frame lo hi s2 s3" using assms(3,6,9) by (rule frame_weaken)
  ultimately show ?thesis by (rule frame_trans)
qed

lemma frame_trans2:
  assumes "frame lo1 hi1 s s1" and "frame lo2 hi2 s1 s2"
    and "lo \<le> lo1" "lo \<le> lo2" "hi1 \<le> hi" "hi2 \<le> hi"
  shows "frame lo hi s s2"
proof -
  have "frame lo hi s s1" using assms(1,3,5) by (rule frame_weaken)
  moreover have "frame lo hi s1 s2" using assms(2,4,6) by (rule frame_weaken)
  ultimately show ?thesis by (rule frame_trans)
qed

lemma sim_step_PBoolean:
  assumes sim: "simulates parse n"
    and al: "alloc (PBoolean m sh mn) \<sigma> = (p, \<sigma>1)"
    and wt: "well_typed m" "well_typed sh" "well_typed mn"
    and ag: "\<forall>a. next_free \<sigma> \<le> a \<and> a < next_free \<sigma>1 \<longrightarrow> same_at \<sigma>1 s a"
    and nf: "next_free \<sigma>1 \<le> next_free s"
  shows "sim_one parse (Suc n) (PBoolean m sh mn) (next_free \<sigma>) (next_free \<sigma>1) p s"
proof -
  obtain qm \<sigma>a where am: "alloc m \<sigma> = (qm, \<sigma>a)" by (cases "alloc m \<sigma>")
  obtain qsh \<sigma>b where ash: "alloc sh \<sigma>a = (qsh, \<sigma>b)" by (cases "alloc sh \<sigma>a")
  obtain qmn \<sigma>c where amn: "alloc mn \<sigma>b = (qmn, \<sigma>c)" by (cases "alloc mn \<sigma>b")
  let ?a = "next_free \<sigma>c"
  let ?lo = "next_free \<sigma>" and ?hi = "next_free \<sigma>1"
  from al am ash amn have p: "p = Ref BooleanQuery ?a" and n1: "?hi = Suc ?a"
    and \<sigma>1: "\<sigma>1 = \<sigma>c\<lparr>next_free := Suc ?a, Must := (Must \<sigma>c)(?a := qm),
                   Should := (Should \<sigma>c)(?a := qsh), MustNot := (MustNot \<sigma>c)(?a := qmn)\<rparr>"
    by auto
  have ea: "extends \<sigma> \<sigma>a" using am by (rule alloc_extends(1))
  have eb: "extends \<sigma>a \<sigma>b" using ash by (rule alloc_extends(1))
  have ec: "extends \<sigma>b \<sigma>c" using amn by (rule alloc_extends(1))
  have na: "?lo \<le> next_free \<sigma>a" and nb: "next_free \<sigma>a \<le> next_free \<sigma>b"
    and nc: "next_free \<sigma>b \<le> ?a"
    using ea eb ec by (simp_all add: extends_next_free)
  have ns: "Suc ?a \<le> next_free s" using nf n1 by simp
  have "same_at \<sigma>1 s ?a" using ag na nb nc n1 by simp
  then have slots: "Must s ?a = qm" "Should s ?a = qsh" "MustNot s ?a = qmn"
    using \<sigma>1 by (simp_all add: same_at_def)
  have agc: "same_at \<sigma>c s b" if "?lo \<le> b" "b < ?a" for b
  proof -
    from that ag n1 have "same_at \<sigma>1 s b" by simp
    then show ?thesis using that \<sigma>1 by (simp add: same_at_def)
  qed
  have agb: "same_at \<sigma>b s b" if "?lo \<le> b" "b < next_free \<sigma>b" for b
  proof -
    have "same_at \<sigma>b \<sigma>c b" using ec that by (simp add: extends_same_at)
    moreover have "same_at \<sigma>c s b" using that nc by (intro agc) simp_all
    ultimately show ?thesis by (rule same_at_trans)
  qed
  have aga: "same_at \<sigma>a s b" if "?lo \<le> b" "b < next_free \<sigma>a" for b
  proof -
    have "same_at \<sigma>a \<sigma>b b" using eb that by (simp add: extends_same_at)
    moreover have "same_at \<sigma>b s b" using that nb by (intro agb) simp_all
    ultimately show ?thesis by (rule same_at_trans)
  qed
  have one_m: "sim_one parse n m ?lo (next_free \<sigma>a) qm s"
    using sim am wt(1)
  proof (rule simulatesD)
    show "next_free \<sigma>a \<le> next_free s" using nb nc ns by simp
  qed (rule aga)
  note eq = expand_Boolean_eq [of parse n s ?a, unfolded slots]
  show ?thesis
  proof (cases "spec_expand parse n m")
    case None
    with one_m eq show ?thesis by (simp add: sim_one_def p del: expand.simps)
  next
    case (Some o1)
    show ?thesis
    proof (cases o1)
      case (Inl err)
      with Some one_m eq show ?thesis by (auto simp: sim_one_def p simp del: expand.simps)
    next
      case rm: (Inr m')
      from Some rm one_m obtain s1 rm where
        x1: "expand parse n s qm = Some (s1, Inr rm)"
        and f1: "frame ?lo (next_free \<sigma>a) s s1"
        and d1: "denotes_on (\<lambda>b. (?lo \<le> b \<and> b < next_free \<sigma>a)
                               \<or> (next_free s \<le> b \<and> b < next_free s1)) s1 rm m'"
        by (auto simp: sim_one_def)
      let ?s1' = "s1\<lparr>Must := (Must s1)(?a := rm)\<rparr>"
      have m1: "next_free s \<le> next_free s1" using f1 by (simp add: frame_def)
      have sa1: "same_at s s1 b" if "next_free \<sigma>a \<le> b" "b < next_free s" for b
        using f1 that by (simp add: frame_def)
      have sh1: "Should s1 ?a = qsh" and mn1: "MustNot s1 ?a = qmn"
        using sa1 [of ?a] nb nc ns slots by (simp_all add: same_at_def)
      have ag1: "\<forall>b. next_free \<sigma>a \<le> b \<and> b < next_free \<sigma>b \<longrightarrow> same_at \<sigma>b ?s1' b"
      proof (intro allI impI)
        fix b assume b: "next_free \<sigma>a \<le> b \<and> b < next_free \<sigma>b"
        have "same_at \<sigma>b s b" using b na by (intro agb) simp_all
        moreover have "same_at s s1 b" using b nc ns by (intro sa1) simp_all
        ultimately have "same_at \<sigma>b s1 b" by (rule same_at_trans)
        then show "same_at \<sigma>b ?s1' b" using b nc by (simp add: same_at_def)
      qed
      have one_sh: "sim_one parse n sh (next_free \<sigma>a) (next_free \<sigma>b) qsh ?s1'"
        using sim ash wt(2)
      proof (rule simulatesD)
        show "next_free \<sigma>b \<le> next_free ?s1'" using nc ns m1 by simp
      qed (use ag1 in blast)
      have eq1: "expand parse (Suc n) s p =
        (case expand parse n ?s1' qsh of
            None \<Rightarrow> None
          | Some (s2, Inl err) \<Rightarrow> Some (s2\<lparr>Should := (Should s2)(?a := NilQuery)\<rparr>, Inl err)
          | Some (s2, Inr sh) \<Rightarrow>
             (case expand parse n (s2\<lparr>Should := (Should s2)(?a := sh)\<rparr>) (MustNot s2 ?a) of
                None \<Rightarrow> None
              | Some (s3, Inl err) \<Rightarrow>
                  Some (s3\<lparr>MustNot := (MustNot s3)(?a := NilQuery)\<rparr>, Inl err)
              | Some (s3, Inr mn) \<Rightarrow>
                  Some (s3\<lparr>MustNot := (MustNot s3)(?a := mn)\<rparr>, Inr p)))"
        unfolding p eq x1 by (simp add: sh1 del: expand.simps)
      have sp1: "spec_expand parse (Suc n) (PBoolean m sh mn) =
         (case spec_expand parse n sh of
                None \<Rightarrow> None
              | Some (Inl err) \<Rightarrow> Some (Inl err)
              | Some (Inr sh') \<Rightarrow>
                 (case spec_expand parse n mn of
                    None \<Rightarrow> None
                  | Some (Inl err) \<Rightarrow> Some (Inl err)
                  | Some (Inr mn') \<Rightarrow> Some (Inr (PBoolean m' sh' mn'))))"
        using Some rm by simp
      show ?thesis
      proof (cases "spec_expand parse n sh")
        case None
        with one_sh eq1 sp1 show ?thesis
          by (simp add: sim_one_def del: expand.simps spec_expand.simps)
      next
        case o2: (Some o2)
        show ?thesis
        proof (cases o2)
          case (Inl err)
          with o2 one_sh eq1 sp1 show ?thesis
            by (auto simp: sim_one_def simp del: expand.simps spec_expand.simps)
        next
          case rsh: (Inr sh')
          from o2 rsh one_sh obtain s2 rsh where
            x2: "expand parse n ?s1' qsh = Some (s2, Inr rsh)"
            and f2: "frame (next_free \<sigma>a) (next_free \<sigma>b) ?s1' s2"
            and d2: "denotes_on (\<lambda>b. (next_free \<sigma>a \<le> b \<and> b < next_free \<sigma>b)
                                   \<or> (next_free ?s1' \<le> b \<and> b < next_free s2)) s2 rsh sh'"
            by (auto simp: sim_one_def)
          let ?s2' = "s2\<lparr>Should := (Should s2)(?a := rsh)\<rparr>"
          have m2: "next_free s1 \<le> next_free s2" using f2 by (simp add: frame_def)
          have sa2: "same_at ?s1' s2 b" if "next_free \<sigma>b \<le> b" "b < next_free s1" for b
            using f2 that by (simp add: frame_def)
          have "same_at ?s1' s2 ?a" using nc ns m1 by (intro sa2) simp_all
          then have mu2: "Must s2 ?a = rm" and mn2: "MustNot s2 ?a = qmn"
            using mn1 by (simp_all add: same_at_def)
          have ag2: "\<forall>b. next_free \<sigma>b \<le> b \<and> b < ?a \<longrightarrow> same_at \<sigma>c ?s2' b"
          proof (intro allI impI)
            fix b assume b: "next_free \<sigma>b \<le> b \<and> b < ?a"
            have "same_at \<sigma>c s b" using b na nb by (intro agc) simp_all
            moreover have "same_at s s1 b" using b nb ns by (intro sa1) simp_all
            ultimately have "same_at \<sigma>c s1 b" by (rule same_at_trans)
            then have "same_at \<sigma>c ?s1' b" using b by (simp add: same_at_def)
            moreover have "same_at ?s1' s2 b" using b ns m1 by (intro sa2) simp_all
            ultimately have "same_at \<sigma>c s2 b" by (rule same_at_trans)
            then show "same_at \<sigma>c ?s2' b" using b by (simp add: same_at_def)
          qed
          have one_mn: "sim_one parse n mn (next_free \<sigma>b) ?a qmn ?s2'"
            using sim amn wt(3)
          proof (rule simulatesD)
            show "?a \<le> next_free ?s2'" using ns m1 m2 by simp
          qed (use ag2 in blast)
          have eq2: "expand parse (Suc n) s p =
             (case expand parse n ?s2' qmn of
                None \<Rightarrow> None
              | Some (s3, Inl err) \<Rightarrow>
                  Some (s3\<lparr>MustNot := (MustNot s3)(?a := NilQuery)\<rparr>, Inl err)
              | Some (s3, Inr mn) \<Rightarrow>
                  Some (s3\<lparr>MustNot := (MustNot s3)(?a := mn)\<rparr>, Inr p))"
            unfolding eq1 x2 by (simp add: mn2 del: expand.simps)
          have sp2: "spec_expand parse (Suc n) (PBoolean m sh mn) =
                 (case spec_expand parse n mn of
                    None \<Rightarrow> None
                  | Some (Inl err) \<Rightarrow> Some (Inl err)
                  | Some (Inr mn') \<Rightarrow> Some (Inr (PBoolean m' sh' mn')))"
            unfolding sp1 using o2 rsh by simp
          show ?thesis
          proof (cases "spec_expand parse n mn")
            case None
            with one_mn eq2 sp2 show ?thesis
              by (simp add: sim_one_def del: expand.simps spec_expand.simps)
          next
            case o3: (Some o3)
            show ?thesis
            proof (cases o3)
              case (Inl err)
              with o3 one_mn eq2 sp2 show ?thesis
                by (auto simp: sim_one_def simp del: expand.simps spec_expand.simps)
            next
              case rmn: (Inr mn')
              from o3 rmn one_mn obtain s3 rmn where
                x3: "expand parse n ?s2' qmn = Some (s3, Inr rmn)"
                and f3: "frame (next_free \<sigma>b) ?a ?s2' s3"
                and d3: "denotes_on (\<lambda>b. (next_free \<sigma>b \<le> b \<and> b < ?a)
                                       \<or> (next_free ?s2' \<le> b \<and> b < next_free s3)) s3 rmn mn'"
                by (auto simp: sim_one_def)
              let ?s3' = "s3\<lparr>MustNot := (MustNot s3)(?a := rmn)\<rparr>"
              let ?A = "\<lambda>b. (?lo \<le> b \<and> b < ?hi) \<or> (next_free s \<le> b \<and> b < next_free ?s3')"
              have m3: "next_free s2 \<le> next_free s3" using f3 by (simp add: frame_def)
              have "same_at ?s2' s3 ?a" using f3 ns m1 m2 by (simp add: frame_def)
              then have mu3: "Must s3 ?a = rm" and sh3: "Should s3 ?a = rsh"
                using mu2 by (simp_all add: same_at_def)
              have x: "expand parse (Suc n) s p = Some (?s3', Inr p)"
                unfolding eq2 x3 by simp
              have w1: "frame ?a (Suc ?a) s1 ?s1'" by (intro frame_write) simp_all
              have w2: "frame ?a (Suc ?a) s2 ?s2'" by (intro frame_write) simp_all
              have w3: "frame ?a (Suc ?a) s3 ?s3'" by (intro frame_write) simp_all
              have g3: "frame (next_free \<sigma>b) ?hi s2 ?s3'"
                using w2 f3 w3 by (rule frame_trans3) (use nc n1 in simp_all)
              have g2: "frame (next_free \<sigma>a) ?hi s1 ?s3'"
                using w1 f2 g3 by (rule frame_trans3) (use nb nc n1 in simp_all)
              have g1: "frame ?lo ?hi s ?s3'"
                using f1 g2 by (rule frame_trans2) (use na nb nc n1 in simp_all)
              have e1: "denotes_on ?A ?s3' rm m'"
                using d1 g2
              proof (rule denotes_on_frame, intro allI impI)
                fix b
                assume "(?lo \<le> b \<and> b < next_free \<sigma>a) \<or> (next_free s \<le> b \<and> b < next_free s1)"
                then show "?A b \<and> (b < next_free \<sigma>a \<or> (?hi \<le> b \<and> b < next_free s1))"
                  using nb nc n1 ns m2 m3 by auto
              qed
              have e2: "denotes_on ?A ?s3' rsh sh'"
                using d2 g3
              proof (rule denotes_on_frame, intro allI impI)
                fix b
                assume "(next_free \<sigma>a \<le> b \<and> b < next_free \<sigma>b)
                          \<or> (next_free ?s1' \<le> b \<and> b < next_free s2)"
                then show "?A b \<and> (b < next_free \<sigma>b \<or> (?hi \<le> b \<and> b < next_free s2))"
                  using na nc n1 ns m1 m3 by auto
              qed
              have e3: "denotes_on ?A ?s3' rmn mn'"
                using d3 w3
              proof (rule denotes_on_frame, intro allI impI)
                fix b
                assume "(next_free \<sigma>b \<le> b \<and> b < ?a)
                          \<or> (next_free ?s2' \<le> b \<and> b < next_free s3)"
                then show "?A b \<and> (b < ?a \<or> (Suc ?a \<le> b \<and> b < next_free s3))"
                  using na nb n1 ns m1 m2 by auto
              qed
              have "denotes_on ?A ?s3' p (PBoolean m' sh' mn')"
                using e1 e2 e3 mu3 sh3 na nb nc n1 by (simp add: p)
              with x g1 have "\<exists>s' r. expand parse (Suc n) s p = Some (s', Inr r)
                  \<and> frame ?lo ?hi s s'
                  \<and> denotes_on (\<lambda>b. (?lo \<le> b \<and> b < ?hi)
                                    \<or> (next_free s \<le> b \<and> b < next_free s')) s' r
                       (PBoolean m' sh' mn')
                  \<and> r = p"
                by blast
              moreover have "spec_expand parse (Suc n) (PBoolean m sh mn)
                               = Some (Inr (PBoolean m' sh' mn'))"
                unfolding sp2 using o3 rmn by simp
              ultimately show ?thesis
                by (simp add: sim_one_def del: expand.simps spec_expand.simps)
            qed
          qed
        qed
      qed
    qed
  qed
qed

lemma simulates_Suc:
  assumes sim: "simulates parse n" and pok: "parser_ok parse"
  shows "simulates parse (Suc n)"
  unfolding simulates_def
proof (intro allI impI)
  fix t \<sigma> p \<sigma>1 s
  assume al: "alloc t \<sigma> = (p, \<sigma>1)" and wt: "well_typed t"
    and ag: "\<forall>a. next_free \<sigma> \<le> a \<and> a < next_free \<sigma>1 \<longrightarrow> same_at \<sigma>1 s a"
    and nf: "next_free \<sigma>1 \<le> next_free s"
  show "sim_one parse (Suc n) t (next_free \<sigma>) (next_free \<sigma>1) p s"
  proof (cases t)
    case PNil
    with al show ?thesis by (simp only: sim_step_PNil)
  next
    case (PLeaf ty)
    with al wt show ?thesis by (simp only: sim_step_PLeaf)
  next
    case (PQueryString w)
    with sim pok al ag nf show ?thesis by (simp only: sim_step_PQueryString)
  next
    case (PConjunction ts)
    with wt have "well_typed_list ts" by simp
    with sim al ag nf PConjunction show ?thesis by (simp only: sim_step_PConjunction)
  next
    case (PDisjunction ts)
    with wt have "well_typed_list ts" by simp
    with sim al ag nf PDisjunction show ?thesis by (simp only: sim_step_PDisjunction)
  next
    case (PBoolean m sh mn)
    with wt have "well_typed m" "well_typed sh" "well_typed mn" by simp_all
    with sim al ag nf PBoolean show ?thesis by (simp only: sim_step_PBoolean)
  qed
qed

lemma simulates_all: "parser_ok parse \<Longrightarrow> simulates parse n"
  by (induction n) (simp_all add: simulates_0 simulates_Suc)

lemma spec_expand_list_no_query_string:
  assumes "\<forall>t t'. child t = Some (Inr t') \<longrightarrow> no_query_string t'"
  shows "spec_expand_list child ts = Some (Inr ts') \<Longrightarrow> no_query_string_list ts'"
proof (induction ts arbitrary: ts')
  case Nil
  then show ?case by simp
next
  case (Cons t ts)
  from Cons.prems obtain e es where c: "child t = Some (Inr e)"
    and r: "spec_expand_list child ts = Some (Inr es)" and ts': "ts' = e # es"
    by (auto split: option.splits sum.splits)
  from assms c have "no_query_string e" by blast
  moreover from Cons.IH [OF r] have "no_query_string_list es" .
  ultimately show ?case using ts' by simp
qed

lemma spec_expand_no_query_string:
  "spec_expand parse n t = Some (Inr t') \<Longrightarrow> no_query_string t'"
proof (induction n arbitrary: t t')
  case 0
  then show ?case by simp
next
  case (Suc n)
  have IH: "\<forall>t t'. spec_expand parse n t = Some (Inr t') \<longrightarrow> no_query_string t'"
    using Suc.IH by blast
  note L = spec_expand_list_no_query_string [OF IH]
  show ?case
  proof (cases t)
    case PNil
    with Suc.prems show ?thesis by auto
  next
    case (PLeaf ty)
    with Suc.prems show ?thesis by auto
  next
    case (PQueryString w)
    with Suc.prems IH show ?thesis by (auto split: sum.splits)
  next
    case (PConjunction ts)
    with Suc.prems L show ?thesis by (auto split: option.splits sum.splits)
  next
    case (PDisjunction ts)
    with Suc.prems L show ?thesis by (auto split: option.splits sum.splits)
  next
    case (PBoolean m sh mn)
    with Suc.prems IH show ?thesis by (auto split: option.splits sum.splits)
  qed
qed

lemma expand_refines:
  assumes pok: "parser_ok parse" and wt: "well_typed t" and al: "alloc t \<sigma> = (p, s)"
  shows "case spec_expand parse n t of
           None \<Rightarrow> expand parse n s p = None
         | Some (Inl err) \<Rightarrow> (\<exists>s'. expand parse n s p = Some (s', Inl err))
         | Some (Inr t') \<Rightarrow>
             (\<exists>s' r. expand parse n s p = Some (s', Inr r) \<and> denotes s' r t'
                \<and> no_query_string t' \<and> frame (next_free \<sigma>) (next_free s) s s'
                \<and> (case t of PQueryString _ \<Rightarrow> True | _ \<Rightarrow> r = p))"
proof -
  have one: "sim_one parse n t (next_free \<sigma>) (next_free s) p s"
    using simulates_all [OF pok] al wt
  proof (rule simulatesD)
    show "next_free s \<le> next_free s" by simp
  qed (rule same_at_refl)
  show ?thesis
  proof (cases "spec_expand parse n t")
    case None
    with one show ?thesis by (simp add: sim_one_def)
  next
    case (Some o1)
    show ?thesis
    proof (cases o1)
      case (Inl err)
      with Some one show ?thesis by (simp add: sim_one_def)
    next
      case (Inr t')
      with Some one obtain s' r where x: "expand parse n s p = Some (s', Inr r)"
        and f: "frame (next_free \<sigma>) (next_free s) s s'"
        and d: "denotes_on (\<lambda>a. (next_free \<sigma> \<le> a \<and> a < next_free s)
                             \<or> (next_free s \<le> a \<and> a < next_free s')) s' r t'"
        and r: "case t of PQueryString _ \<Rightarrow> True | _ \<Rightarrow> r = p"
        by (auto simp: sim_one_def)
      have n: "next_free s \<le> next_free s'" using f by (simp add: frame_def)
      have "denotes s' r t'"
        unfolding denotes_def using d
      proof (rule denotes_on_transfer(1), intro allI impI)
        fix a
        assume "(next_free \<sigma> \<le> a \<and> a < next_free s) \<or> (next_free s \<le> a \<and> a < next_free s')"
        then show "a < next_free s' \<and> same_at s' s' a" using n by (auto simp: same_at_refl)
      qed
      moreover have "no_query_string t'"
        using Some Inr by (auto intro: spec_expand_no_query_string)
      ultimately show ?thesis using x f r Some Inr by auto
    qed
  qed
qed

subsection \<open>Fuel that is enough\<close>

lemma spec_expand_list_same:
  "(\<And>t. t \<in> set ts \<Longrightarrow> child t = Some (Inr t)) \<Longrightarrow> spec_expand_list child ts = Some (Inr ts)"
  by (induction ts) simp_all

lemma spec_expand_list_returns:
  "(\<And>t. t \<in> set ts \<Longrightarrow> child t \<noteq> None) \<Longrightarrow> spec_expand_list child ts \<noteq> None"
  by (induction ts) (auto split: option.splits sum.splits)

lemma height_list_member: "t \<in> set ts \<Longrightarrow> height t \<le> height_list ts"
  by (induction ts) auto

lemma no_query_string_list_member: "no_query_string_list ts \<Longrightarrow> t \<in> set ts \<Longrightarrow> no_query_string t"
  by (induction ts) auto

lemma spec_expand_string_free:
  "no_query_string t \<Longrightarrow> height t < k \<Longrightarrow> spec_expand parse k t = Some (Inr t)"
proof (induction k arbitrary: t)
  case 0
  then show ?case by simp
next
  case (Suc k)
  show ?case
  proof (cases t)
    case PNil
    then show ?thesis by simp
  next
    case (PLeaf ty)
    then show ?thesis by simp
  next
    case (PQueryString w)
    with Suc.prems show ?thesis by simp
  next
    case (PConjunction ts)
    have "spec_expand_list (spec_expand parse k) ts = Some (Inr ts)"
    proof (rule spec_expand_list_same)
      fix c assume c: "c \<in> set ts"
      have "no_query_string c"
        using Suc.prems(1) PConjunction c by (simp add: no_query_string_list_member)
      moreover have "height c < k"
        using Suc.prems(2) PConjunction height_list_member [OF c] by simp
      ultimately show "spec_expand parse k c = Some (Inr c)" by (rule Suc.IH)
    qed
    with PConjunction show ?thesis by simp
  next
    case (PDisjunction ts)
    have "spec_expand_list (spec_expand parse k) ts = Some (Inr ts)"
    proof (rule spec_expand_list_same)
      fix c assume c: "c \<in> set ts"
      have "no_query_string c"
        using Suc.prems(1) PDisjunction c by (simp add: no_query_string_list_member)
      moreover have "height c < k"
        using Suc.prems(2) PDisjunction height_list_member [OF c] by simp
      ultimately show "spec_expand parse k c = Some (Inr c)" by (rule Suc.IH)
    qed
    with PDisjunction show ?thesis by simp
  next
    case (PBoolean m sh mn)
    have "spec_expand parse k m = Some (Inr m)" "spec_expand parse k sh = Some (Inr sh)"
      "spec_expand parse k mn = Some (Inr mn)"
      using Suc.prems PBoolean by (auto intro!: Suc.IH)
    with PBoolean show ?thesis by simp
  qed
qed

lemma spec_expand_returns:
  assumes flat: "parser_flat parse d"
  shows "height t + d + 1 < k \<Longrightarrow> spec_expand parse k t \<noteq> None"
proof (induction k arbitrary: t)
  case 0
  then show ?case by simp
next
  case (Suc k)
  show ?case
  proof (cases t)
    case PNil
    then show ?thesis by simp
  next
    case (PLeaf ty)
    then show ?thesis by simp
  next
    case (PQueryString w)
    show ?thesis
    proof (cases "parse w")
      case (Inl msg)
      with PQueryString show ?thesis by simp
    next
      case (Inr parsed)
      with flat have "no_query_string parsed" "height parsed \<le> d"
        by (auto simp: parser_flat_def)
      moreover have "d < k" using Suc.prems by simp
      ultimately have "spec_expand parse k parsed = Some (Inr parsed)"
        by (intro spec_expand_string_free) auto
      with PQueryString Inr show ?thesis by simp
    qed
  next
    case (PConjunction ts)
    have "spec_expand_list (spec_expand parse k) ts \<noteq> None"
    proof (rule spec_expand_list_returns)
      fix c assume c: "c \<in> set ts"
      have "height c + d + 1 < k"
        using Suc.prems PConjunction height_list_member [OF c] by simp
      then show "spec_expand parse k c \<noteq> None" by (rule Suc.IH)
    qed
    with PConjunction show ?thesis by (auto split: option.splits sum.splits)
  next
    case (PDisjunction ts)
    have "spec_expand_list (spec_expand parse k) ts \<noteq> None"
    proof (rule spec_expand_list_returns)
      fix c assume c: "c \<in> set ts"
      have "height c + d + 1 < k"
        using Suc.prems PDisjunction height_list_member [OF c] by simp
      then show "spec_expand parse k c \<noteq> None" by (rule Suc.IH)
    qed
    with PDisjunction show ?thesis by (auto split: option.splits sum.splits)
  next
    case (PBoolean m sh mn)
    have h: "height m + d + 1 < k" "height sh + d + 1 < k" "height mn + d + 1 < k"
      using Suc.prems PBoolean by simp_all
    have "spec_expand parse k m \<noteq> None" "spec_expand parse k sh \<noteq> None"
      "spec_expand parse k mn \<noteq> None"
      by (rule Suc.IH [OF h(1)], rule Suc.IH [OF h(2)], rule Suc.IH [OF h(3)])
    with PBoolean show ?thesis by (auto split: option.splits sum.splits)
  qed
qed

lemma expand_returns:
  assumes "parser_ok parse" "parser_flat parse d" "well_typed t" "alloc t \<sigma> = (p, s)"
    "height t + d + 1 < k"
  shows "\<exists>s' e. expand parse k s p = Some (s', e)"
  using expand_refines [OF assms(1,3,4), of k] spec_expand_returns [OF assms(2,5)]
  by (auto split: option.splits sum.splits)

subsection \<open>Runs of the expansion on the sample trees\<close>

lemma parser_ok_nested: "parser_ok nested_parse"
  by (auto simp: parser_ok_def nested_parse_def split: if_splits)

lemma sample_tree_alloc: "fst (alloc sample_tree empty_store) = Ref BooleanQuery 5"
  by code_simp

lemma sample_tree_spec:
  "spec_expand nested_parse 6 sample_tree = Some (Inr expanded_sample_tree)"
  by code_simp

lemma sample_tree_before:
  "Conjuncts (snd (alloc sample_tree empty_store)) 2
     = Some [Ref QueryStringQuery 0, Ref MatchQuery 1]
   \<and> Disjuncts (snd (alloc sample_tree empty_store)) 4 = Some [Ref QueryStringQuery 3]"
  by code_simp

lemma sample_tree_run:
  "map_option (\<lambda>(s, r). (r, Must s 5, Should s 5, MustNot s 5, Conjuncts s 2, Disjuncts s 4))
     (expand nested_parse 6 (snd (alloc sample_tree empty_store)) (Ref BooleanQuery 5))
   = Some (Inr (Ref BooleanQuery 5), Ref ConjunctionQuery 2, Ref DisjunctionQuery 4, NilQuery,
           Some [Ref TermQuery 6, Ref MatchQuery 1], Some [Ref ConjunctionQuery 9])"
  by code_simp

lemma disjunction_alloc:
  "fst (alloc (PDisjunction [PQueryString ''outer'']) empty_store) = Ref DisjunctionQuery 1"
  by code_simp

lemma disjunction_spec:
  "spec_expand nested_parse 5 (PDisjunction [PQueryString ''outer''])
     = Some (Inr (PDisjunction [PConjunction [PLeaf TermQuery, PLeaf MatchQuery]]))"
  by code_simp

lemma disjunction_run:
  "Disjuncts (snd (alloc (PDisjunction [PQueryString ''outer'']) empty_store)) 1
     = Some [Ref QueryStringQuery 0]
   \<and> map_option (\<lambda>(s, r). (r, Disjuncts s 1, Conjuncts s 4))
     (expand nested_parse 5 (snd (alloc (PDisjunction [PQueryString ''outer'']) empty_store))
        (Ref DisjunctionQuery 1))
   = Some (Inr (Ref DisjunctionQuery 1), Some [Ref ConjunctionQuery 4],
           Some [Ref TermQuery 5, Ref MatchQuery 3])"
  by code_simp

lemma nested_spec:
  "spec_expand nested_parse 3 (PConjunction [PQueryString ''inner'', PLeaf MatchQuery])
     = Some (Inr (PConjunction [PLeaf TermQuery, PLeaf MatchQuery]))"
  by code_simp

lemma nested_run:
  "map_option (\<lambda>(s, r). (r, Conjuncts s 3))
     (expand nested_parse (Suc 3) nested_store (Ref QueryStringQuery 0))
   = Some (Inr (Ref ConjunctionQuery 3), Some [Ref TermQuery 4, Ref MatchQuery 2])"
  by code_simp

lemma nested_parse_outer:
  "nested_parse (Query_text nested_store 0)
     = Inr (PConjunction [PQueryString ''inner'', PLeaf MatchQuery])"
  by (simp add: nested_store_def nested_parse_def)

lemma well_typed_sample_tree: "well_typed sample_tree"
  by (simp add: sample_tree_def)

lemma parser_ok_flat: "parser_ok flat_parse"
  by (auto simp: parser_ok_def flat_parse_def split: if_splits)

lemma parser_flat_flat: "parser_flat flat_parse 2"
  by (auto simp: parser_flat_def flat_parse_def split: if_splits)

lemma well_typed_flat_tree: "well_typed flat_tree"
  by (simp add: flat_tree_def)

lemma flat_tree_alloc: "fst (alloc flat_tree empty_store) = Ref BooleanQuery 1"
  by code_simp

lemma flat_tree_before: "Must (snd (alloc flat_tree empty_store)) 1 = Ref QueryStringQuery 0"
  by code_simp

lemma flat_tree_run:
  "map_option (\<lambda>(s, r). (r, Must s 1, Should s 1, MustNot s 1, Should s 4, Disjuncts s 3))
     (expand flat_parse 5 (snd (alloc flat_tree empty_store)) (Ref BooleanQuery 1))
   = Some (Inr (Ref BooleanQuery 1), Ref BooleanQuery 4, NilQuery, NilQuery,
           Ref DisjunctionQuery 3, Some [Ref MatchQuery 2])"
  by code_simp

lemma flat_parse_beer:
  "flat_parse (Query_text beer_store 0) = Inr (PBoolean PNil (PDisjunction [PLeaf MatchQuery]) PNil)"
  by (simp add: beer_store_def flat_parse_def)

lemma flat_run:
  "map_option (\<lambda>(s, r). (r, Should s 3, Disjuncts s 2))
     (expand flat_parse (Suc 3) beer_store (Ref QueryStringQuery 0))
   = Some (Inr (Ref BooleanQuery 3), Ref DisjunctionQuery 2, Some [Ref MatchQuery 1])"
  by code_simp

subsection \<open>What the expansion does to each kind of node\<close>

text \<open>
  Claim C7. Expanding a conjunction or a disjunction expands the children from left to
  right and lists the results in that order; the first child that fails ends the
  expansion with its error. Expanding nil returns nil, with no error and the store as
  before. Expanding a boolean query expands what its must, should and must-not slots
  hold, one after the other, each in the store the one before it left: when the three
  expansions succeed, the three slots hold their results and the pointer given is
  returned; the first one that fails ends the expansion with its error, and that slot
  then holds nil. A slot of an allocated struct that holds nil before the call holds nil
  after it, whatever the outcome. As a whole, for a parser that is well behaved and a
  well typed tree allocated in the store, the expansion does what the tree-level
  description does: it runs out of fuel or fails with an error exactly when the
  description does, with the same error, and otherwise it succeeds with a pointer that
  denotes the expanded tree, children in order and slots in place. With a flat parser
  and fuel above the height of the tree plus the parser's bound plus one, it returns.
\<close>

theorem expand_children_and_slots:
  "(expand parse (Suc fuel) s (Ref ConjunctionQuery q) =
     (case spec_expand_children (expand parse fuel) s (elems (Conjuncts s q)) of
        None \<Rightarrow> None
      | Some (s1, Inl err) \<Rightarrow> Some (s1, Inl err)
      | Some (s1, Inr children) \<Rightarrow>
          Some (s1\<lparr>Conjuncts := (Conjuncts s1)(q := Some children)\<rparr>,
                Inr (Ref ConjunctionQuery q)))
   \<and> expand parse (Suc fuel) s (Ref DisjunctionQuery q) =
     (case spec_expand_children (expand parse fuel) s (elems (Disjuncts s q)) of
        None \<Rightarrow> None
      | Some (s1, Inl err) \<Rightarrow> Some (s1, Inl err)
      | Some (s1, Inr children) \<Rightarrow>
          Some (s1\<lparr>Disjuncts := (Disjuncts s1)(q := Some children)\<rparr>,
                Inr (Ref DisjunctionQuery q)))
   \<and> expand parse (Suc fuel) s NilQuery = Some (s, Inr NilQuery)
   \<and> (q < next_free s \<and> expand parse (Suc fuel) s (Ref BooleanQuery q) = Some (s', Inr r) \<longrightarrow>
        (\<exists>s1 m s2 sh s3 mn.
           expand parse fuel s (Must s q) = Some (s1, Inr m)
         \<and> expand parse fuel (s1\<lparr>Must := (Must s1)(q := m)\<rparr>) (Should s1 q) = Some (s2, Inr sh)
         \<and> expand parse fuel (s2\<lparr>Should := (Should s2)(q := sh)\<rparr>) (MustNot s2 q)
             = Some (s3, Inr mn)
         \<and> Must s' q = m \<and> Should s' q = sh \<and> MustNot s' q = mn))
   \<and> (q < next_free s \<and> expand parse (Suc fuel) s (Ref BooleanQuery q) = Some (s', r') \<longrightarrow>
        (Must s q = NilQuery \<longrightarrow> Must s' q = NilQuery)
        \<and> (Should s q = NilQuery \<longrightarrow> Should s' q = NilQuery)
        \<and> (MustNot s q = NilQuery \<longrightarrow> MustNot s' q = NilQuery)))
   \<and> expand parse (Suc fuel) s (Ref BooleanQuery q) =
     (case expand parse fuel s (Must s q) of
        None \<Rightarrow> None
      | Some (s1, Inl err) \<Rightarrow> Some (s1\<lparr>Must := (Must s1)(q := NilQuery)\<rparr>, Inl err)
      | Some (s1, Inr m) \<Rightarrow>
         (case expand parse fuel (s1\<lparr>Must := (Must s1)(q := m)\<rparr>) (Should s1 q) of
            None \<Rightarrow> None
          | Some (s2, Inl err) \<Rightarrow> Some (s2\<lparr>Should := (Should s2)(q := NilQuery)\<rparr>, Inl err)
          | Some (s2, Inr sh) \<Rightarrow>
             (case expand parse fuel (s2\<lparr>Should := (Should s2)(q := sh)\<rparr>) (MustNot s2 q) of
                None \<Rightarrow> None
              | Some (s3, Inl err) \<Rightarrow>
                  Some (s3\<lparr>MustNot := (MustNot s3)(q := NilQuery)\<rparr>, Inl err)
              | Some (s3, Inr mn) \<Rightarrow>
                  Some (s3\<lparr>MustNot := (MustNot s3)(q := mn)\<rparr>, Inr (Ref BooleanQuery q)))))
   \<and> (parser_ok parse \<and> well_typed tree \<and> alloc tree \<sigma> = (ptr, st) \<longrightarrow>
        (case spec_expand parse k tree of
           None \<Rightarrow> expand parse k st ptr = None
         | Some (Inl err) \<Rightarrow> (\<exists>st'. expand parse k st ptr = Some (st', Inl err))
         | Some (Inr tree') \<Rightarrow>
             (\<exists>st' res. expand parse k st ptr = Some (st', Inr res) \<and> denotes st' res tree')))
   \<and> (parser_ok parse \<and> parser_flat parse d \<and> well_typed tree \<and> alloc tree \<sigma> = (ptr, st)
        \<and> height tree + d + 1 < k \<longrightarrow>
        (\<exists>st' e. expand parse k st ptr = Some (st', e)))"
proof -
  have old: "expand parse (Suc fuel) s (Ref ConjunctionQuery q) =
     (case spec_expand_children (expand parse fuel) s (elems (Conjuncts s q)) of
        None \<Rightarrow> None
      | Some (s1, Inl err) \<Rightarrow> Some (s1, Inl err)
      | Some (s1, Inr children) \<Rightarrow>
          Some (s1\<lparr>Conjuncts := (Conjuncts s1)(q := Some children)\<rparr>,
                Inr (Ref ConjunctionQuery q)))
   \<and> expand parse (Suc fuel) s (Ref DisjunctionQuery q) =
     (case spec_expand_children (expand parse fuel) s (elems (Disjuncts s q)) of
        None \<Rightarrow> None
      | Some (s1, Inl err) \<Rightarrow> Some (s1, Inl err)
      | Some (s1, Inr children) \<Rightarrow>
          Some (s1\<lparr>Disjuncts := (Disjuncts s1)(q := Some children)\<rparr>,
                Inr (Ref DisjunctionQuery q)))
   \<and> expand parse (Suc fuel) s NilQuery = Some (s, Inr NilQuery)
   \<and> (q < next_free s \<and> expand parse (Suc fuel) s (Ref BooleanQuery q) = Some (s', Inr r) \<longrightarrow>
        (\<exists>s1 m s2 sh s3 mn.
           expand parse fuel s (Must s q) = Some (s1, Inr m)
         \<and> expand parse fuel (s1\<lparr>Must := (Must s1)(q := m)\<rparr>) (Should s1 q) = Some (s2, Inr sh)
         \<and> expand parse fuel (s2\<lparr>Should := (Should s2)(q := sh)\<rparr>) (MustNot s2 q)
             = Some (s3, Inr mn)
         \<and> Must s' q = m \<and> Should s' q = sh \<and> MustNot s' q = mn))
   \<and> (q < next_free s \<and> expand parse (Suc fuel) s (Ref BooleanQuery q) = Some (s', r') \<longrightarrow>
        (Must s q = NilQuery \<longrightarrow> Must s' q = NilQuery)
        \<and> (Should s q = NilQuery \<longrightarrow> Should s' q = NilQuery)
        \<and> (MustNot s q = NilQuery \<longrightarrow> MustNot s' q = NilQuery))"
  proof -
    have slots: "\<exists>s1 m s2 sh s3 mn.
             expand parse fuel s (Must s q) = Some (s1, Inr m)
           \<and> expand parse fuel (s1\<lparr>Must := (Must s1)(q := m)\<rparr>) (Should s1 q) = Some (s2, Inr sh)
           \<and> expand parse fuel (s2\<lparr>Should := (Should s2)(q := sh)\<rparr>) (MustNot s2 q)
               = Some (s3, Inr mn)
           \<and> Must s' q = m \<and> Should s' q = sh \<and> MustNot s' q = mn"
      if "q < next_free s" "expand parse (Suc fuel) s (Ref BooleanQuery q) = Some (s', Inr r)"
      using expand_Boolean_slots [OF that] by blast
    have absent: "(Must s q = NilQuery \<longrightarrow> Must s' q = NilQuery)
          \<and> (Should s q = NilQuery \<longrightarrow> Should s' q = NilQuery)
          \<and> (MustNot s q = NilQuery \<longrightarrow> MustNot s' q = NilQuery)"
      if lt: "q < next_free s" and ex: "expand parse (Suc fuel) s (Ref BooleanQuery q) = Some (s', r')"
    proof -
      have "slots_absent (Must s q = NilQuery) (Should s q = NilQuery) (MustNot s q = NilQuery) q s"
        using lt by (simp add: slots_absent_def)
      then have "slots_absent (Must s q = NilQuery) (Should s q = NilQuery)
                   (MustNot s q = NilQuery) q s'"
        using ex by (rule expand_slots_absent)
      then show ?thesis by (simp add: slots_absent_def)
    qed
    show ?thesis
      using expand_Conjunction_spec [of parse fuel s q] expand_Disjunction_spec [of parse fuel s q]
        expand_NilQuery [of parse fuel s] slots absent
      by blast
  qed
  have eq: "expand parse (Suc fuel) s (Ref BooleanQuery q) =
     (case expand parse fuel s (Must s q) of
        None \<Rightarrow> None
      | Some (s1, Inl err) \<Rightarrow> Some (s1\<lparr>Must := (Must s1)(q := NilQuery)\<rparr>, Inl err)
      | Some (s1, Inr m) \<Rightarrow>
         (case expand parse fuel (s1\<lparr>Must := (Must s1)(q := m)\<rparr>) (Should s1 q) of
            None \<Rightarrow> None
          | Some (s2, Inl err) \<Rightarrow> Some (s2\<lparr>Should := (Should s2)(q := NilQuery)\<rparr>, Inl err)
          | Some (s2, Inr sh) \<Rightarrow>
             (case expand parse fuel (s2\<lparr>Should := (Should s2)(q := sh)\<rparr>) (MustNot s2 q) of
                None \<Rightarrow> None
              | Some (s3, Inl err) \<Rightarrow>
                  Some (s3\<lparr>MustNot := (MustNot s3)(q := NilQuery)\<rparr>, Inl err)
              | Some (s3, Inr mn) \<Rightarrow>
                  Some (s3\<lparr>MustNot := (MustNot s3)(q := mn)\<rparr>, Inr (Ref BooleanQuery q)))))"
    by (rule expand_Boolean_eq)
  have ref: "(case spec_expand parse k tree of
           None \<Rightarrow> expand parse k st ptr = None
         | Some (Inl err) \<Rightarrow> (\<exists>st'. expand parse k st ptr = Some (st', Inl err))
         | Some (Inr tree') \<Rightarrow>
             (\<exists>st' res. expand parse k st ptr = Some (st', Inr res) \<and> denotes st' res tree'))"
    if "parser_ok parse" "well_typed tree" "alloc tree \<sigma> = (ptr, st)"
    using expand_refines [OF that, of k]
    by (auto split: option.splits sum.splits)
  have ret: "(\<exists>st' e. expand parse k st ptr = Some (st', e))"
    if "parser_ok parse" "parser_flat parse d" "well_typed tree" "alloc tree \<sigma> = (ptr, st)"
      "height tree + d + 1 < k"
    using that by (rule expand_returns)
  from old eq ref ret show ?thesis by blast
qed

lemma sample_run_not_none:
  "\<not> Option.is_none (expand sample_parse (Suc 7) sample_store (Ref BooleanQuery 4))"
  by code_simp

lemma sample_run_Conjuncts:
  "map_option (\<lambda>(s, r). (Conjuncts s 3, r))
     (expand sample_parse (Suc 6) sample_store (Ref ConjunctionQuery 3))
   = Some (Some [Ref BooleanQuery 7, Ref TermQuery 1, Ref BooleanQuery 11],
           Inr (Ref ConjunctionQuery 3))"
  by code_simp

theorem expand_children_and_slots_witness:
  "4 < next_free sample_store
   \<and> Should sample_store 4 = NilQuery
   \<and> map_option (\<lambda>(s, r). Should s 4)
        (expand sample_parse (Suc 7) sample_store (Ref BooleanQuery 4)) = Some NilQuery
   \<and> map_option (\<lambda>(s, r). (Conjuncts s 3, r))
        (expand sample_parse (Suc 6) sample_store (Ref ConjunctionQuery 3))
      = Some (Some [Ref BooleanQuery 7, Ref TermQuery 1, Ref BooleanQuery 11],
              Inr (Ref ConjunctionQuery 3))
   \<and> parser_ok nested_parse
   \<and> well_typed sample_tree
   \<and> alloc sample_tree empty_store
       = (Ref BooleanQuery 5, snd (alloc sample_tree empty_store))
   \<and> spec_expand nested_parse 6 sample_tree = Some (Inr expanded_sample_tree)
   \<and> (\<exists>s' r. expand nested_parse 6 (snd (alloc sample_tree empty_store)) (Ref BooleanQuery 5)
                = Some (s', Inr r)
            \<and> denotes s' r expanded_sample_tree)
   \<and> map_option (\<lambda>(s, r). (r, Must s 5, Should s 5, MustNot s 5, Conjuncts s 2, Disjuncts s 4))
       (expand nested_parse 6 (snd (alloc sample_tree empty_store)) (Ref BooleanQuery 5))
     = Some (Inr (Ref BooleanQuery 5), Ref ConjunctionQuery 2, Ref DisjunctionQuery 4, NilQuery,
             Some [Ref TermQuery 6, Ref MatchQuery 1], Some [Ref ConjunctionQuery 9])
   \<and> parser_ok flat_parse
   \<and> parser_flat flat_parse 2
   \<and> well_typed flat_tree
   \<and> alloc flat_tree empty_store = (Ref BooleanQuery 1, snd (alloc flat_tree empty_store))
   \<and> height flat_tree + 2 + 1 < 5
   \<and> (\<exists>s' e. expand flat_parse 5 (snd (alloc flat_tree empty_store)) (Ref BooleanQuery 1)
                = Some (s', e))
   \<and> map_option (\<lambda>(s, r). (r, Must s 1, Should s 1, MustNot s 1, Should s 4, Disjuncts s 3))
       (expand flat_parse 5 (snd (alloc flat_tree empty_store)) (Ref BooleanQuery 1))
     = Some (Inr (Ref BooleanQuery 1), Ref BooleanQuery 4, NilQuery, NilQuery,
             Ref DisjunctionQuery 3, Some [Ref MatchQuery 2])"
proof -
  obtain s' r' where
    ex: "expand sample_parse (Suc 7) sample_store (Ref BooleanQuery 4) = Some (s', r')"
    using sample_run_not_none by (auto simp: Option.is_none_def)
  have lt: "4 < next_free sample_store" and ab: "Should sample_store 4 = NilQuery"
    by (simp_all add: sample_store_def)
  from expand_children_and_slots
    [where parse = sample_parse and fuel = 7 and s = sample_store and q = 4 and s' = s'
       and r' = r', THEN conjunct1]
    lt ex ab
  have "Should s' 4 = NilQuery" by blast
  then have sh: "map_option (\<lambda>(s, r). Should s 4)
        (expand sample_parse (Suc 7) sample_store (Ref BooleanQuery 4)) = Some NilQuery"
    using ex by simp
  have al: "alloc sample_tree empty_store
       = (Ref BooleanQuery 5, snd (alloc sample_tree empty_store))"
    using sample_tree_alloc by (simp add: prod_eq_iff)
  note deep = expand_children_and_slots
    [where parse = nested_parse and tree = sample_tree and \<sigma> = empty_store
       and ptr = "Ref BooleanQuery 5" and st = "snd (alloc sample_tree empty_store)" and k = 6,
     THEN conjunct2, THEN conjunct2, THEN conjunct1]
  from deep parser_ok_nested well_typed_sample_tree al
  have "case spec_expand nested_parse 6 sample_tree of
           None \<Rightarrow>
             expand nested_parse 6 (snd (alloc sample_tree empty_store)) (Ref BooleanQuery 5)
               = None
         | Some (Inl err) \<Rightarrow>
             (\<exists>st'. expand nested_parse 6 (snd (alloc sample_tree empty_store))
                       (Ref BooleanQuery 5) = Some (st', Inl err))
         | Some (Inr tree') \<Rightarrow>
             (\<exists>st' res. expand nested_parse 6 (snd (alloc sample_tree empty_store))
                           (Ref BooleanQuery 5) = Some (st', Inr res)
                \<and> denotes st' res tree')"
    by blast
  then have run: "\<exists>s' r. expand nested_parse 6 (snd (alloc sample_tree empty_store))
                   (Ref BooleanQuery 5) = Some (s', Inr r)
            \<and> denotes s' r expanded_sample_tree"
    by (simp only: sample_tree_spec option.case sum.case)
  have fal: "alloc flat_tree empty_store
       = (Ref BooleanQuery 1, snd (alloc flat_tree empty_store))"
    using flat_tree_alloc by (simp add: prod_eq_iff)
  have fh: "height flat_tree + 2 + 1 < 5"
    by (simp add: flat_tree_def)
  note total = expand_children_and_slots
    [where parse = flat_parse and tree = flat_tree and \<sigma> = empty_store and d = 2
       and ptr = "Ref BooleanQuery 1" and st = "snd (alloc flat_tree empty_store)" and k = 5,
     THEN conjunct2, THEN conjunct2, THEN conjunct2]
  from total parser_ok_flat parser_flat_flat well_typed_flat_tree fal fh
  have ret: "\<exists>s' e. expand flat_parse 5 (snd (alloc flat_tree empty_store))
                (Ref BooleanQuery 1) = Some (s', e)"
    by blast
  from lt ab sh sample_run_Conjuncts parser_ok_nested well_typed_sample_tree al
    sample_tree_spec run sample_tree_run
    parser_ok_flat parser_flat_flat well_typed_flat_tree fal fh ret flat_tree_run
  show ?thesis by (intro conjI)
qed

text \<open>
  Claim C2. A successful expansion of a conjunction, a disjunction or a boolean query
  returns the pointer it was given. The struct it points to is written in place: the
  slice of a conjunction or disjunction is the list of the expanded children, and the
  three slots of a boolean query (an allocated struct) hold the expansions of what they
  held. Whenever the children or the slots expand, the node is written and returned: the
  three equations. For a parser that is well behaved and a well typed composite tree
  allocated in the store, whenever the tree-level expansion succeeds, the expansion in
  the store succeeds, returns the pointer it was given, and that pointer then denotes
  the expanded tree; of the structs allocated before the call, only those of the tree
  are written. With a flat parser and fuel above the height of the tree plus the
  parser's bound plus one, the expansion returns, and what it returns is an error or the
  pointer it was given. The store before the call is not kept: the conjunction of the
  sample store holds other children after its expansion.
\<close>

theorem expand_in_place:
  "(((t = ConjunctionQuery \<or> t = DisjunctionQuery \<or> t = BooleanQuery)
      \<and> expand parse fuel s (Ref t q) = Some (s', Inr r) \<longrightarrow> r = Ref t q)
   \<and> (expand parse (Suc fuel) s (Ref ConjunctionQuery q) = Some (s', Inr r) \<longrightarrow>
        (\<exists>s1 children.
           expandSlice (expand parse fuel) s (elems (Conjuncts s q)) [] = Some (s1, Inr children)
         \<and> s' = s1\<lparr>Conjuncts := (Conjuncts s1)(q := Some children)\<rparr>
         \<and> Conjuncts s' q = Some children))
   \<and> (expand parse (Suc fuel) s (Ref DisjunctionQuery q) = Some (s', Inr r) \<longrightarrow>
        (\<exists>s1 children.
           expandSlice (expand parse fuel) s (elems (Disjuncts s q)) [] = Some (s1, Inr children)
         \<and> s' = s1\<lparr>Disjuncts := (Disjuncts s1)(q := Some children)\<rparr>
         \<and> Disjuncts s' q = Some children))
   \<and> (q < next_free s \<and> expand parse (Suc fuel) s (Ref BooleanQuery q) = Some (s', Inr r) \<longrightarrow>
        (\<exists>s1 m s2 sh s3 mn.
           expand parse fuel s (Must s q) = Some (s1, Inr m)
         \<and> expand parse fuel (s1\<lparr>Must := (Must s1)(q := m)\<rparr>) (Should s1 q) = Some (s2, Inr sh)
         \<and> expand parse fuel (s2\<lparr>Should := (Should s2)(q := sh)\<rparr>) (MustNot s2 q)
             = Some (s3, Inr mn)
         \<and> s' = s3\<lparr>MustNot := (MustNot s3)(q := mn)\<rparr>
         \<and> Must s' q = m \<and> Should s' q = sh \<and> MustNot s' q = mn))
   \<and> (\<exists>s1. expand sample_parse (Suc 6) sample_store (Ref ConjunctionQuery 3)
               = Some (s1, Inr (Ref ConjunctionQuery 3))
            \<and> Conjuncts s1 3 \<noteq> Conjuncts sample_store 3))
   \<and> expand parse (Suc fuel) s (Ref ConjunctionQuery q) =
     (case expandSlice (expand parse fuel) s (elems (Conjuncts s q)) [] of
        None \<Rightarrow> None
      | Some (s1, Inl err) \<Rightarrow> Some (s1, Inl err)
      | Some (s1, Inr children) \<Rightarrow>
          Some (s1\<lparr>Conjuncts := (Conjuncts s1)(q := Some children)\<rparr>,
                Inr (Ref ConjunctionQuery q)))
   \<and> expand parse (Suc fuel) s (Ref DisjunctionQuery q) =
     (case expandSlice (expand parse fuel) s (elems (Disjuncts s q)) [] of
        None \<Rightarrow> None
      | Some (s1, Inl err) \<Rightarrow> Some (s1, Inl err)
      | Some (s1, Inr children) \<Rightarrow>
          Some (s1\<lparr>Disjuncts := (Disjuncts s1)(q := Some children)\<rparr>,
                Inr (Ref DisjunctionQuery q)))
   \<and> expand parse (Suc fuel) s (Ref BooleanQuery q) =
     (case expand parse fuel s (Must s q) of
        None \<Rightarrow> None
      | Some (s1, Inl err) \<Rightarrow> Some (s1\<lparr>Must := (Must s1)(q := NilQuery)\<rparr>, Inl err)
      | Some (s1, Inr m) \<Rightarrow>
         (case expand parse fuel (s1\<lparr>Must := (Must s1)(q := m)\<rparr>) (Should s1 q) of
            None \<Rightarrow> None
          | Some (s2, Inl err) \<Rightarrow> Some (s2\<lparr>Should := (Should s2)(q := NilQuery)\<rparr>, Inl err)
          | Some (s2, Inr sh) \<Rightarrow>
             (case expand parse fuel (s2\<lparr>Should := (Should s2)(q := sh)\<rparr>) (MustNot s2 q) of
                None \<Rightarrow> None
              | Some (s3, Inl err) \<Rightarrow>
                  Some (s3\<lparr>MustNot := (MustNot s3)(q := NilQuery)\<rparr>, Inl err)
              | Some (s3, Inr mn) \<Rightarrow>
                  Some (s3\<lparr>MustNot := (MustNot s3)(q := mn)\<rparr>, Inr (Ref BooleanQuery q)))))
   \<and> (parser_ok parse \<and> well_typed tree \<and> composite tree \<and> alloc tree \<sigma> = (ptr, st)
        \<and> spec_expand parse k tree = Some (Inr tree') \<longrightarrow>
        (\<exists>st'. expand parse k st ptr = Some (st', Inr ptr) \<and> denotes st' ptr tree'
           \<and> frame (next_free \<sigma>) (next_free st) st st'))
   \<and> (parser_ok parse \<and> parser_flat parse d \<and> well_typed tree \<and> composite tree
        \<and> alloc tree \<sigma> = (ptr, st) \<and> height tree + d + 1 < k \<longrightarrow>
        (\<exists>st' e. expand parse k st ptr = Some (st', e)
           \<and> (case e of Inl err \<Rightarrow> True | Inr res \<Rightarrow> res = ptr)))"
proof -
  have old: "((t = ConjunctionQuery \<or> t = DisjunctionQuery \<or> t = BooleanQuery)
      \<and> expand parse fuel s (Ref t q) = Some (s', Inr r) \<longrightarrow> r = Ref t q)
   \<and> (expand parse (Suc fuel) s (Ref ConjunctionQuery q) = Some (s', Inr r) \<longrightarrow>
        (\<exists>s1 children.
           expandSlice (expand parse fuel) s (elems (Conjuncts s q)) [] = Some (s1, Inr children)
         \<and> s' = s1\<lparr>Conjuncts := (Conjuncts s1)(q := Some children)\<rparr>
         \<and> Conjuncts s' q = Some children))
   \<and> (expand parse (Suc fuel) s (Ref DisjunctionQuery q) = Some (s', Inr r) \<longrightarrow>
        (\<exists>s1 children.
           expandSlice (expand parse fuel) s (elems (Disjuncts s q)) [] = Some (s1, Inr children)
         \<and> s' = s1\<lparr>Disjuncts := (Disjuncts s1)(q := Some children)\<rparr>
         \<and> Disjuncts s' q = Some children))
   \<and> (q < next_free s \<and> expand parse (Suc fuel) s (Ref BooleanQuery q) = Some (s', Inr r) \<longrightarrow>
        (\<exists>s1 m s2 sh s3 mn.
           expand parse fuel s (Must s q) = Some (s1, Inr m)
         \<and> expand parse fuel (s1\<lparr>Must := (Must s1)(q := m)\<rparr>) (Should s1 q) = Some (s2, Inr sh)
         \<and> expand parse fuel (s2\<lparr>Should := (Should s2)(q := sh)\<rparr>) (MustNot s2 q)
             = Some (s3, Inr mn)
         \<and> s' = s3\<lparr>MustNot := (MustNot s3)(q := mn)\<rparr>
         \<and> Must s' q = m \<and> Should s' q = sh \<and> MustNot s' q = mn))
   \<and> (\<exists>s1. expand sample_parse (Suc 6) sample_store (Ref ConjunctionQuery 3)
               = Some (s1, Inr (Ref ConjunctionQuery 3))
            \<and> Conjuncts s1 3 \<noteq> Conjuncts sample_store 3)"
  proof -
    have same: "r = Ref t q"
      if "t = ConjunctionQuery \<or> t = DisjunctionQuery \<or> t = BooleanQuery"
        and "expand parse fuel s (Ref t q) = Some (s', Inr r)"
      using that expand_same_pointer [of parse fuel s t q s' r] by auto
    have conj: "\<exists>s1 children.
             expandSlice (expand parse fuel) s (elems (Conjuncts s q)) [] = Some (s1, Inr children)
           \<and> s' = s1\<lparr>Conjuncts := (Conjuncts s1)(q := Some children)\<rparr>
           \<and> Conjuncts s' q = Some children"
      if "expand parse (Suc fuel) s (Ref ConjunctionQuery q) = Some (s', Inr r)"
      using that by (auto split: option.splits sum.splits)
    have disj: "\<exists>s1 children.
             expandSlice (expand parse fuel) s (elems (Disjuncts s q)) [] = Some (s1, Inr children)
           \<and> s' = s1\<lparr>Disjuncts := (Disjuncts s1)(q := Some children)\<rparr>
           \<and> Disjuncts s' q = Some children"
      if "expand parse (Suc fuel) s (Ref DisjunctionQuery q) = Some (s', Inr r)"
      using that by (auto split: option.splits sum.splits)
    have bool: "\<exists>s1 m s2 sh s3 mn.
             expand parse fuel s (Must s q) = Some (s1, Inr m)
           \<and> expand parse fuel (s1\<lparr>Must := (Must s1)(q := m)\<rparr>) (Should s1 q) = Some (s2, Inr sh)
           \<and> expand parse fuel (s2\<lparr>Should := (Should s2)(q := sh)\<rparr>) (MustNot s2 q)
               = Some (s3, Inr mn)
           \<and> s' = s3\<lparr>MustNot := (MustNot s3)(q := mn)\<rparr>
           \<and> Must s' q = m \<and> Should s' q = sh \<and> MustNot s' q = mn"
      if "q < next_free s" "expand parse (Suc fuel) s (Ref BooleanQuery q) = Some (s', Inr r)"
      using expand_Boolean_slots [OF that] by blast
    have changed: "\<exists>s1. expand sample_parse (Suc 6) sample_store (Ref ConjunctionQuery 3)
                 = Some (s1, Inr (Ref ConjunctionQuery 3))
              \<and> Conjuncts s1 3 \<noteq> Conjuncts sample_store 3"
      using sample_run_Conjuncts by (auto simp: sample_store_def)
    from same conj disj bool changed show ?thesis by blast
  qed
  have c: "expand parse (Suc fuel) s (Ref ConjunctionQuery q) =
     (case expandSlice (expand parse fuel) s (elems (Conjuncts s q)) [] of
        None \<Rightarrow> None
      | Some (s1, Inl err) \<Rightarrow> Some (s1, Inl err)
      | Some (s1, Inr children) \<Rightarrow>
          Some (s1\<lparr>Conjuncts := (Conjuncts s1)(q := Some children)\<rparr>,
                Inr (Ref ConjunctionQuery q)))"
    by simp
  have d: "expand parse (Suc fuel) s (Ref DisjunctionQuery q) =
     (case expandSlice (expand parse fuel) s (elems (Disjuncts s q)) [] of
        None \<Rightarrow> None
      | Some (s1, Inl err) \<Rightarrow> Some (s1, Inl err)
      | Some (s1, Inr children) \<Rightarrow>
          Some (s1\<lparr>Disjuncts := (Disjuncts s1)(q := Some children)\<rparr>,
                Inr (Ref DisjunctionQuery q)))"
    by simp
  have b: "expand parse (Suc fuel) s (Ref BooleanQuery q) =
     (case expand parse fuel s (Must s q) of
        None \<Rightarrow> None
      | Some (s1, Inl err) \<Rightarrow> Some (s1\<lparr>Must := (Must s1)(q := NilQuery)\<rparr>, Inl err)
      | Some (s1, Inr m) \<Rightarrow>
         (case expand parse fuel (s1\<lparr>Must := (Must s1)(q := m)\<rparr>) (Should s1 q) of
            None \<Rightarrow> None
          | Some (s2, Inl err) \<Rightarrow> Some (s2\<lparr>Should := (Should s2)(q := NilQuery)\<rparr>, Inl err)
          | Some (s2, Inr sh) \<Rightarrow>
             (case expand parse fuel (s2\<lparr>Should := (Should s2)(q := sh)\<rparr>) (MustNot s2 q) of
                None \<Rightarrow> None
              | Some (s3, Inl err) \<Rightarrow>
                  Some (s3\<lparr>MustNot := (MustNot s3)(q := NilQuery)\<rparr>, Inl err)
              | Some (s3, Inr mn) \<Rightarrow>
                  Some (s3\<lparr>MustNot := (MustNot s3)(q := mn)\<rparr>, Inr (Ref BooleanQuery q)))))"
    by (rule expand_Boolean_eq)
  have ref: "(\<exists>st'. expand parse k st ptr = Some (st', Inr ptr) \<and> denotes st' ptr tree'
           \<and> frame (next_free \<sigma>) (next_free st) st st')"
    if "parser_ok parse" "well_typed tree" "composite tree" "alloc tree \<sigma> = (ptr, st)"
      "spec_expand parse k tree = Some (Inr tree')"
    using expand_refines [OF that(1,2,4), of k] that(3,5)
    by (auto simp: composite_def split: ptree.splits)
  have ret: "(\<exists>st' e. expand parse k st ptr = Some (st', e)
           \<and> (case e of Inl err \<Rightarrow> True | Inr res \<Rightarrow> res = ptr))"
    if "parser_ok parse" "parser_flat parse d" "well_typed tree" "composite tree"
      "alloc tree \<sigma> = (ptr, st)" "height tree + d + 1 < k"
    using expand_refines [OF that(1,3,5), of k] spec_expand_returns [OF that(2,6)] that(4)
    by (auto simp: composite_def split: option.splits sum.splits ptree.splits)
  from old c d b ref ret show ?thesis by blast
qed

theorem expand_in_place_witness:
  "map_option snd (expand sample_parse (Suc 6) sample_store (Ref ConjunctionQuery 3))
     = Some (Inr (Ref ConjunctionQuery 3))
   \<and> map_option (\<lambda>(s, r). Conjuncts s 3)
       (expand sample_parse (Suc 6) sample_store (Ref ConjunctionQuery 3))
     = Some (Some [Ref BooleanQuery 7, Ref TermQuery 1, Ref BooleanQuery 11])
   \<and> Conjuncts sample_store 3
     = Some [Ref QueryStringQuery 0, Ref TermQuery 1, Ref QueryStringQuery 2]
   \<and> parser_ok nested_parse
   \<and> well_typed sample_tree
   \<and> composite sample_tree
   \<and> alloc sample_tree empty_store
       = (Ref BooleanQuery 5, snd (alloc sample_tree empty_store))
   \<and> spec_expand nested_parse 6 sample_tree = Some (Inr expanded_sample_tree)
   \<and> (\<exists>s'. expand nested_parse 6 (snd (alloc sample_tree empty_store)) (Ref BooleanQuery 5)
                = Some (s', Inr (Ref BooleanQuery 5))
            \<and> denotes s' (Ref BooleanQuery 5) expanded_sample_tree)
   \<and> Disjuncts (snd (alloc sample_tree empty_store)) 4 = Some [Ref QueryStringQuery 3]
   \<and> map_option (\<lambda>(s, r). Disjuncts s 4)
       (expand nested_parse 6 (snd (alloc sample_tree empty_store)) (Ref BooleanQuery 5))
     = Some (Some [Ref ConjunctionQuery 9])
   \<and> alloc (PDisjunction [PQueryString ''outer'']) empty_store
       = (Ref DisjunctionQuery 1, snd (alloc (PDisjunction [PQueryString ''outer'']) empty_store))
   \<and> (\<exists>s'. expand nested_parse 5
               (snd (alloc (PDisjunction [PQueryString ''outer'']) empty_store))
               (Ref DisjunctionQuery 1)
                = Some (s', Inr (Ref DisjunctionQuery 1))
            \<and> denotes s' (Ref DisjunctionQuery 1)
                (PDisjunction [PConjunction [PLeaf TermQuery, PLeaf MatchQuery]]))
   \<and> Disjuncts (snd (alloc (PDisjunction [PQueryString ''outer'']) empty_store)) 1
       = Some [Ref QueryStringQuery 0]
   \<and> map_option (\<lambda>(s, r). Disjuncts s 1)
       (expand nested_parse 5 (snd (alloc (PDisjunction [PQueryString ''outer'']) empty_store))
          (Ref DisjunctionQuery 1))
     = Some (Some [Ref ConjunctionQuery 4])
   \<and> parser_ok flat_parse
   \<and> parser_flat flat_parse 2
   \<and> well_typed flat_tree
   \<and> composite flat_tree
   \<and> alloc flat_tree empty_store = (Ref BooleanQuery 1, snd (alloc flat_tree empty_store))
   \<and> height flat_tree + 2 + 1 < 5
   \<and> (\<exists>s' e. expand flat_parse 5 (snd (alloc flat_tree empty_store)) (Ref BooleanQuery 1)
                = Some (s', e)
            \<and> (case e of Inl err \<Rightarrow> True | Inr res \<Rightarrow> res = Ref BooleanQuery 1))
   \<and> Must (snd (alloc flat_tree empty_store)) 1 = Ref QueryStringQuery 0
   \<and> map_option (\<lambda>(s, r). (r, Must s 1))
       (expand flat_parse 5 (snd (alloc flat_tree empty_store)) (Ref BooleanQuery 1))
     = Some (Inr (Ref BooleanQuery 1), Ref BooleanQuery 4)"
proof -
  from expand_in_place
    [where parse = sample_parse and fuel = 6 and s = sample_store and q = 3,
     THEN conjunct1]
  obtain s1 where
    ex: "expand sample_parse (Suc 6) sample_store (Ref ConjunctionQuery 3)
           = Some (s1, Inr (Ref ConjunctionQuery 3))"
    by blast
  from ex sample_run_Conjuncts have c1: "Conjuncts s1 3
     = Some [Ref BooleanQuery 7, Ref TermQuery 1, Ref BooleanQuery 11]" by simp
  have c0: "Conjuncts sample_store 3
     = Some [Ref QueryStringQuery 0, Ref TermQuery 1, Ref QueryStringQuery 2]"
    by (simp add: sample_store_def)
  have old: "map_option snd (expand sample_parse (Suc 6) sample_store (Ref ConjunctionQuery 3))
     = Some (Inr (Ref ConjunctionQuery 3))
   \<and> map_option (\<lambda>(s, r). Conjuncts s 3)
       (expand sample_parse (Suc 6) sample_store (Ref ConjunctionQuery 3))
     = Some (Some [Ref BooleanQuery 7, Ref TermQuery 1, Ref BooleanQuery 11])
   \<and> Conjuncts sample_store 3
     = Some [Ref QueryStringQuery 0, Ref TermQuery 1, Ref QueryStringQuery 2]"
    using ex c1 c0 by simp
  have comp: "composite sample_tree" "composite (PDisjunction [PQueryString ''outer''])"
    by (simp_all add: composite_def sample_tree_def)
  have wt: "well_typed (PDisjunction [PQueryString ''outer''])"
    by simp
  have al: "alloc sample_tree empty_store
       = (Ref BooleanQuery 5, snd (alloc sample_tree empty_store))"
    using sample_tree_alloc by (simp add: prod_eq_iff)
  have al2: "alloc (PDisjunction [PQueryString ''outer'']) empty_store
       = (Ref DisjunctionQuery 1, snd (alloc (PDisjunction [PQueryString ''outer'']) empty_store))"
    using disjunction_alloc by (simp add: prod_eq_iff)
  note deep = expand_in_place
    [where parse = nested_parse and tree = sample_tree and \<sigma> = empty_store
       and ptr = "Ref BooleanQuery 5" and st = "snd (alloc sample_tree empty_store)" and k = 6
       and tree' = expanded_sample_tree,
     THEN conjunct2, THEN conjunct2, THEN conjunct2, THEN conjunct2, THEN conjunct1]
  from deep parser_ok_nested well_typed_sample_tree comp(1) al sample_tree_spec
  have run: "\<exists>s'. expand nested_parse 6 (snd (alloc sample_tree empty_store))
                (Ref BooleanQuery 5) = Some (s', Inr (Ref BooleanQuery 5))
            \<and> denotes s' (Ref BooleanQuery 5) expanded_sample_tree"
    by blast
  note deep2 = expand_in_place
    [where parse = nested_parse and tree = "PDisjunction [PQueryString ''outer'']"
       and \<sigma> = empty_store and ptr = "Ref DisjunctionQuery 1"
       and st = "snd (alloc (PDisjunction [PQueryString ''outer'']) empty_store)" and k = 5
       and tree' = "PDisjunction [PConjunction [PLeaf TermQuery, PLeaf MatchQuery]]",
     THEN conjunct2, THEN conjunct2, THEN conjunct2, THEN conjunct2, THEN conjunct1]
  from deep2 parser_ok_nested wt comp(2) al2 disjunction_spec
  have run2: "\<exists>s'. expand nested_parse 5
               (snd (alloc (PDisjunction [PQueryString ''outer'']) empty_store))
               (Ref DisjunctionQuery 1)
                = Some (s', Inr (Ref DisjunctionQuery 1))
            \<and> denotes s' (Ref DisjunctionQuery 1)
                (PDisjunction [PConjunction [PLeaf TermQuery, PLeaf MatchQuery]])"
    by blast
  have d4: "map_option (\<lambda>(s, r). Disjuncts s 4)
       (expand nested_parse 6 (snd (alloc sample_tree empty_store)) (Ref BooleanQuery 5))
     = Some (Some [Ref ConjunctionQuery 9])"
    using sample_tree_run run by auto
  have d1: "map_option (\<lambda>(s, r). Disjuncts s 1)
       (expand nested_parse 5 (snd (alloc (PDisjunction [PQueryString ''outer'']) empty_store))
          (Ref DisjunctionQuery 1))
     = Some (Some [Ref ConjunctionQuery 4])"
    using disjunction_run run2 by auto
  have fal: "alloc flat_tree empty_store
       = (Ref BooleanQuery 1, snd (alloc flat_tree empty_store))"
    using flat_tree_alloc by (simp add: prod_eq_iff)
  have fh: "height flat_tree + 2 + 1 < 5" and fc: "composite flat_tree"
    by (simp_all add: flat_tree_def composite_def)
  note total = expand_in_place
    [where parse = flat_parse and tree = flat_tree and \<sigma> = empty_store and d = 2
       and ptr = "Ref BooleanQuery 1" and st = "snd (alloc flat_tree empty_store)" and k = 5,
     THEN conjunct2, THEN conjunct2, THEN conjunct2, THEN conjunct2, THEN conjunct2]
  from total parser_ok_flat parser_flat_flat well_typed_flat_tree fc fal fh
  have ret: "\<exists>s' e. expand flat_parse 5 (snd (alloc flat_tree empty_store))
                (Ref BooleanQuery 1) = Some (s', e)
            \<and> (case e of Inl err \<Rightarrow> True | Inr res \<Rightarrow> res = Ref BooleanQuery 1)"
    by blast
  have m1: "map_option (\<lambda>(s, r). (r, Must s 1))
       (expand flat_parse 5 (snd (alloc flat_tree empty_store)) (Ref BooleanQuery 1))
     = Some (Inr (Ref BooleanQuery 1), Ref BooleanQuery 4)"
    using flat_tree_run ret by auto
  from old [THEN conjunct1] old [THEN conjunct2, THEN conjunct1]
    old [THEN conjunct2, THEN conjunct2]
    parser_ok_nested well_typed_sample_tree comp(1) al sample_tree_spec run
    sample_tree_before [THEN conjunct2] d4 al2 run2 disjunction_run [THEN conjunct1] d1
    parser_ok_flat parser_flat_flat well_typed_flat_tree fc fal fh ret flat_tree_before m1
  show ?thesis by (intro conjI)
qed

text \<open>
  Claim C6. Expanding a query string node calls the parser on the text of the node. When
  the parser fails, the expansion fails with the error whose message is
  \<open>could not parse '\<close>, the text, \<open>': \<close> and the parser's message, so the message holds
  both the text and the parser's message; the store is as before. When the parser
  succeeds, the result is the expansion of the parser's output, not that output itself:
  no successful expansion returns a pointer to a query string. Query strings nested
  anywhere in the parser's output, also inside its composites, are expanded too: for a
  parser that is well behaved, the expansion of the node runs out of fuel or fails
  exactly when the tree-level expansion of the parser's output does, with the same
  error, and otherwise succeeds with a pointer that denotes the expanded tree, which
  holds no query string at any depth. With a flat parser and fuel above the parser's
  bound, the expansion of a node whose text parses succeeds, with a pointer that denotes
  the parser's output.
\<close>

theorem expand_QueryStringQuery:
  "(expand parse (Suc fuel) s (Ref QueryStringQuery q) =
     (case parse (Query_text s q) of
        Inl msg \<Rightarrow>
          Some (s, Inl (Errorf (''could not parse '' @ [CHR 0x27] @ Query_text s q @ [CHR 0x27]
                                 @ '': '' @ msg)))
      | Inr tree \<Rightarrow> expand parse fuel (snd (alloc tree s)) (fst (alloc tree s)))
   \<and> (parse (Query_text s q) = Inl msg \<longrightarrow>
        (\<exists>pre mid post.
           expand parse (Suc fuel) s (Ref QueryStringQuery q)
             = Some (s, Inl (Errorf (pre @ Query_text s q @ mid @ msg @ post)))))
   \<and> (expand parse n s0 q0 = Some (s', Inr r) \<longrightarrow> (\<forall>a. r \<noteq> Ref QueryStringQuery a)))
   \<and> (parser_ok parse \<and> parse (Query_text s q) = Inr tree \<longrightarrow>
        (case spec_expand parse fuel tree of
           None \<Rightarrow> expand parse (Suc fuel) s (Ref QueryStringQuery q) = None
         | Some (Inl err) \<Rightarrow>
             (\<exists>st'. expand parse (Suc fuel) s (Ref QueryStringQuery q) = Some (st', Inl err))
         | Some (Inr tree') \<Rightarrow>
             (\<exists>st' res. expand parse (Suc fuel) s (Ref QueryStringQuery q) = Some (st', Inr res)
                \<and> denotes st' res tree' \<and> no_query_string tree')))
   \<and> (parser_ok parse \<and> parser_flat parse d \<and> d < fuel
        \<and> parse (Query_text s q) = Inr tree \<longrightarrow>
        (\<exists>st' res. expand parse (Suc fuel) s (Ref QueryStringQuery q) = Some (st', Inr res)
           \<and> denotes st' res tree))"
proof -
  have old: "expand parse (Suc fuel) s (Ref QueryStringQuery q) =
     (case parse (Query_text s q) of
        Inl msg \<Rightarrow>
          Some (s, Inl (Errorf (''could not parse '' @ [CHR 0x27] @ Query_text s q @ [CHR 0x27]
                                 @ '': '' @ msg)))
      | Inr tree \<Rightarrow> expand parse fuel (snd (alloc tree s)) (fst (alloc tree s)))
   \<and> (parse (Query_text s q) = Inl msg \<longrightarrow>
        (\<exists>pre mid post.
           expand parse (Suc fuel) s (Ref QueryStringQuery q)
             = Some (s, Inl (Errorf (pre @ Query_text s q @ mid @ msg @ post)))))
   \<and> (expand parse n s0 q0 = Some (s', Inr r) \<longrightarrow> (\<forall>a. r \<noteq> Ref QueryStringQuery a))"
  proof -
    have eq: "expand parse (Suc fuel) s (Ref QueryStringQuery q) =
       (case parse (Query_text s q) of
          Inl msg \<Rightarrow>
            Some (s, Inl (Errorf (''could not parse '' @ [CHR 0x27] @ Query_text s q @ [CHR 0x27]
                                   @ '': '' @ msg)))
        | Inr tree \<Rightarrow> expand parse fuel (snd (alloc tree s)) (fst (alloc tree s)))"
      by (simp add: could_not_parse_def split: sum.splits prod.splits)
    have msg: "\<exists>pre mid post.
             expand parse (Suc fuel) s (Ref QueryStringQuery q)
               = Some (s, Inl (Errorf (pre @ Query_text s q @ mid @ msg @ post)))"
      if "parse (Query_text s q) = Inl msg"
    proof -
      from that eq have "expand parse (Suc fuel) s (Ref QueryStringQuery q)
          = Some (s, Inl (Errorf ((''could not parse '' @ [CHR 0x27]) @ Query_text s q
                                    @ ([CHR 0x27] @ '': '') @ msg @ [])))"
        by simp
      then show ?thesis by blast
    qed
    have res: "\<forall>a. r \<noteq> Ref QueryStringQuery a"
      if "expand parse n s0 q0 = Some (s', Inr r)"
      using expand_result_expanded [OF that] by (auto simp: expanded_value_def)
    from eq msg res show ?thesis by blast
  qed
  have ref: "(case spec_expand parse fuel tree of
           None \<Rightarrow> expand parse (Suc fuel) s (Ref QueryStringQuery q) = None
         | Some (Inl err) \<Rightarrow>
             (\<exists>st'. expand parse (Suc fuel) s (Ref QueryStringQuery q) = Some (st', Inl err))
         | Some (Inr tree') \<Rightarrow>
             (\<exists>st' res. expand parse (Suc fuel) s (Ref QueryStringQuery q) = Some (st', Inr res)
                \<and> denotes st' res tree' \<and> no_query_string tree'))"
    if pok: "parser_ok parse" and pr: "parse (Query_text s q) = Inr tree"
  proof -
    from pok pr have wt: "well_typed tree" by (auto simp: parser_ok_def)
    obtain p s2 where al: "alloc tree s = (p, s2)" by (cases "alloc tree s")
    have eq: "expand parse (Suc fuel) s (Ref QueryStringQuery q) = expand parse fuel s2 p"
      using pr al by simp
    show ?thesis
      unfolding eq using expand_refines [OF pok wt al, of fuel]
      by (auto split: option.splits sum.splits)
  qed
  have ret: "(\<exists>st' res. expand parse (Suc fuel) s (Ref QueryStringQuery q) = Some (st', Inr res)
           \<and> denotes st' res tree)"
    if pok: "parser_ok parse" and pf: "parser_flat parse d" and lt: "d < fuel"
      and pr: "parse (Query_text s q) = Inr tree"
  proof -
    from pf pr have "no_query_string tree" "height tree \<le> d"
      by (auto simp: parser_flat_def)
    with lt have "spec_expand parse fuel tree = Some (Inr tree)"
      by (intro spec_expand_string_free) auto
    with ref [OF pok pr] show ?thesis by auto
  qed
  from old ref ret show ?thesis by blast
qed

theorem expand_QueryStringQuery_witness:
  "parser_ok nested_parse
   \<and> nested_parse (Query_text nested_store 0)
       = Inr (PConjunction [PQueryString ''inner'', PLeaf MatchQuery])
   \<and> spec_expand nested_parse 3 (PConjunction [PQueryString ''inner'', PLeaf MatchQuery])
       = Some (Inr (PConjunction [PLeaf TermQuery, PLeaf MatchQuery]))
   \<and> (\<exists>s' r. expand nested_parse (Suc 3) nested_store (Ref QueryStringQuery 0)
                = Some (s', Inr r)
            \<and> denotes s' r (PConjunction [PLeaf TermQuery, PLeaf MatchQuery]))
   \<and> map_option (\<lambda>(s, r). (r, Conjuncts s 3))
       (expand nested_parse (Suc 3) nested_store (Ref QueryStringQuery 0))
     = Some (Inr (Ref ConjunctionQuery 3), Some [Ref TermQuery 4, Ref MatchQuery 2])
   \<and> map_option snd
     (expand sample_parse (Suc 5)
        (empty_store\<lparr>next_free := 2, Query_text := (Query_text empty_store)(0 := ''again'')\<rparr>)
        (Ref QueryStringQuery 0))
     = Some (Inr (Ref BooleanQuery 5))
   \<and> map_option snd
     (expand sample_parse (Suc 5) (empty_store\<lparr>next_free := 2\<rparr>) (Ref QueryStringQuery 1))
     = Some (Inl (Errorf (''could not parse '' @ [CHR 0x27, CHR 0x27] @ '': empty query'')))
   \<and> parser_flat flat_parse 2
   \<and> flat_parse (Query_text beer_store 0) = Inr (PBoolean PNil (PDisjunction [PLeaf MatchQuery]) PNil)
   \<and> (\<exists>s' r. expand flat_parse (Suc 3) beer_store (Ref QueryStringQuery 0)
                = Some (s', Inr r)
            \<and> denotes s' r (PBoolean PNil (PDisjunction [PLeaf MatchQuery]) PNil))
   \<and> map_option (\<lambda>(s, r). (r, Should s 3, Disjuncts s 2))
       (expand flat_parse (Suc 3) beer_store (Ref QueryStringQuery 0))
     = Some (Inr (Ref BooleanQuery 3), Ref DisjunctionQuery 2, Some [Ref MatchQuery 1])"
proof -
  note deep = expand_QueryStringQuery
    [where parse = nested_parse and fuel = 3 and s = nested_store and q = 0
       and tree = "PConjunction [PQueryString ''inner'', PLeaf MatchQuery]",
     THEN conjunct2, THEN conjunct1]
  from deep parser_ok_nested nested_parse_outer
  have "case spec_expand nested_parse 3 (PConjunction [PQueryString ''inner'', PLeaf MatchQuery]) of
          None \<Rightarrow> expand nested_parse (Suc 3) nested_store (Ref QueryStringQuery 0) = None
        | Some (Inl err) \<Rightarrow>
            (\<exists>st'. expand nested_parse (Suc 3) nested_store (Ref QueryStringQuery 0)
                     = Some (st', Inl err))
        | Some (Inr tree') \<Rightarrow>
            (\<exists>st' res. expand nested_parse (Suc 3) nested_store (Ref QueryStringQuery 0)
                         = Some (st', Inr res)
               \<and> denotes st' res tree' \<and> no_query_string tree')"
    by blast
  then have ex: "\<exists>s' r. expand nested_parse (Suc 3) nested_store (Ref QueryStringQuery 0)
                = Some (s', Inr r)
            \<and> denotes s' r (PConjunction [PLeaf TermQuery, PLeaf MatchQuery])"
    by (simp only: nested_spec option.case sum.case) blast
  have a: "map_option snd
     (expand sample_parse (Suc 5)
        (empty_store\<lparr>next_free := 2, Query_text := (Query_text empty_store)(0 := ''again'')\<rparr>)
        (Ref QueryStringQuery 0))
     = Some (Inr (Ref BooleanQuery 5))"
    unfolding expand_QueryStringQuery
      [where parse = sample_parse and fuel = 5 and q = 0
         and s = "empty_store\<lparr>next_free := 2,
                    Query_text := (Query_text empty_store)(0 := ''again'')\<rparr>",
       THEN conjunct1, THEN conjunct1]
    by code_simp
  have b: "map_option snd
     (expand sample_parse (Suc 5) (empty_store\<lparr>next_free := 2\<rparr>) (Ref QueryStringQuery 1))
     = Some (Inl (Errorf (''could not parse '' @ [CHR 0x27, CHR 0x27] @ '': empty query'')))"
    unfolding expand_QueryStringQuery
      [where parse = sample_parse and fuel = 5 and q = 1
         and s = "empty_store\<lparr>next_free := 2\<rparr>", THEN conjunct1, THEN conjunct1]
    by code_simp
  note total = expand_QueryStringQuery
    [where parse = flat_parse and fuel = 3 and s = beer_store and q = 0 and d = 2
       and tree = "PBoolean PNil (PDisjunction [PLeaf MatchQuery]) PNil",
     THEN conjunct2, THEN conjunct2]
  from total parser_ok_flat parser_flat_flat flat_parse_beer
  have ret: "\<exists>s' r. expand flat_parse (Suc 3) beer_store (Ref QueryStringQuery 0)
                = Some (s', Inr r)
            \<and> denotes s' r (PBoolean PNil (PDisjunction [PLeaf MatchQuery]) PNil)"
    by simp
  from parser_ok_nested nested_parse_outer nested_spec ex nested_run a b
    parser_flat_flat flat_parse_beer ret flat_run
  show ?thesis by (intro conjI)
qed

section \<open>Expansion of trees without query strings\<close>

lemma nil_slices_made_refl: "nil_slices_made s s"
  by (simp add: nil_slices_made_def)

lemma elems_Some_elems: "elems (Some (elems xs)) = elems xs"
  by (simp add: elems_def)

lemma nil_slices_made_elems:
  assumes "nil_slices_made s s'"
  shows "elems (Conjuncts s' a) = elems (Conjuncts s a)"
    and "elems (Disjuncts s' a) = elems (Disjuncts s a)"
proof -
  from assms have "Conjuncts s' a = Conjuncts s a \<or> Conjuncts s' a = Some (elems (Conjuncts s a))"
    by (simp add: nil_slices_made_def)
  then show "elems (Conjuncts s' a) = elems (Conjuncts s a)"
    by (auto simp: elems_Some_elems)
  from assms have "Disjuncts s' a = Disjuncts s a \<or> Disjuncts s' a = Some (elems (Disjuncts s a))"
    by (simp add: nil_slices_made_def)
  then show "elems (Disjuncts s' a) = elems (Disjuncts s a)"
    by (auto simp: elems_Some_elems)
qed

lemma nil_slices_made_slots:
  assumes "nil_slices_made s s'"
  shows "Must s' = Must s" "Should s' = Should s" "MustNot s' = MustNot s"
  using assms by (simp_all add: nil_slices_made_def)

lemma nil_slices_made_trans:
  assumes "nil_slices_made s s1" and "nil_slices_made s1 s2"
  shows "nil_slices_made s s2"
proof -
  have c: "Conjuncts s2 a = Conjuncts s a \<or> Conjuncts s2 a = Some (elems (Conjuncts s a))" for a
  proof -
    from assms(2) have "Conjuncts s2 a = Conjuncts s1 a
        \<or> Conjuncts s2 a = Some (elems (Conjuncts s1 a))"
      by (simp add: nil_slices_made_def)
    moreover from assms(1) have "Conjuncts s1 a = Conjuncts s a
        \<or> Conjuncts s1 a = Some (elems (Conjuncts s a))"
      by (simp add: nil_slices_made_def)
    ultimately show ?thesis by (auto simp: elems_Some_elems)
  qed
  have d: "Disjuncts s2 a = Disjuncts s a \<or> Disjuncts s2 a = Some (elems (Disjuncts s a))" for a
  proof -
    from assms(2) have "Disjuncts s2 a = Disjuncts s1 a
        \<or> Disjuncts s2 a = Some (elems (Disjuncts s1 a))"
      by (simp add: nil_slices_made_def)
    moreover from assms(1) have "Disjuncts s1 a = Disjuncts s a
        \<or> Disjuncts s1 a = Some (elems (Disjuncts s a))"
      by (simp add: nil_slices_made_def)
    ultimately show ?thesis by (auto simp: elems_Some_elems)
  qed
  from assms have "next_free s2 = next_free s \<and> Query_text s2 = Query_text s
      \<and> Must s2 = Must s \<and> Should s2 = Should s \<and> MustNot s2 = MustNot s"
    by (simp add: nil_slices_made_def)
  with c d show ?thesis by (simp add: nil_slices_made_def)
qed

lemma string_free_made:
  "string_free d s q \<Longrightarrow> nil_slices_made s s' \<Longrightarrow> string_free d s' q"
proof (induction d arbitrary: q)
  case 0
  then show ?case by simp
next
  case (Suc d)
  have IH: "list_all (string_free d s) qs \<Longrightarrow> list_all (string_free d s') qs" for qs
    using Suc.IH Suc.prems(2) by (auto simp: list_all_iff)
  show ?case
  proof (cases q)
    case NilQuery
    then show ?thesis by simp
  next
    case (Ref t a)
    with Suc.prems Suc.IH IH show ?thesis
      by (auto simp: nil_slices_made_elems nil_slices_made_slots)
  qed
qed

lemma settled_made:
  "settled d s q \<Longrightarrow> nil_slices_made s s' \<Longrightarrow> settled d s' q"
proof (induction d arbitrary: q)
  case 0
  then show ?case by simp
next
  case (Suc d)
  have IH: "list_all (settled d s) qs \<Longrightarrow> list_all (settled d s') qs" for qs
    using Suc.IH Suc.prems(2) by (auto simp: list_all_iff)
  have c: "Conjuncts s a \<noteq> None \<Longrightarrow> Conjuncts s' a \<noteq> None" for a
  proof -
    from Suc.prems(2) have "Conjuncts s' a = Conjuncts s a
        \<or> Conjuncts s' a = Some (elems (Conjuncts s a))"
      by (simp add: nil_slices_made_def)
    then show "Conjuncts s a \<noteq> None \<Longrightarrow> Conjuncts s' a \<noteq> None" by auto
  qed
  have e: "Disjuncts s a \<noteq> None \<Longrightarrow> Disjuncts s' a \<noteq> None" for a
  proof -
    from Suc.prems(2) have "Disjuncts s' a = Disjuncts s a
        \<or> Disjuncts s' a = Some (elems (Disjuncts s a))"
      by (simp add: nil_slices_made_def)
    then show "Disjuncts s a \<noteq> None \<Longrightarrow> Disjuncts s' a \<noteq> None" by auto
  qed
  show ?case
  proof (cases q)
    case NilQuery
    then show ?thesis by simp
  next
    case (Ref t a)
    with Suc.prems Suc.IH IH c [of a] e [of a] show ?thesis
      by (auto simp: nil_slices_made_elems nil_slices_made_slots)
  qed
qed

lemma expandSlice_string_free:
  assumes IH: "\<forall>s q. string_free d s q \<longrightarrow>
           (\<exists>s'. expand parse d s q = Some (s', Inr q) \<and> nil_slices_made s s' \<and> settled d s' q)"
  shows "list_all (string_free d s) qs \<Longrightarrow>
         \<exists>s'. expandSlice (expand parse d) s qs acc = Some (s', Inr (acc @ qs))
             \<and> nil_slices_made s s' \<and> list_all (settled d s') qs"
proof (induction qs arbitrary: s acc)
  case Nil
  then show ?case by (simp add: nil_slices_made_refl)
next
  case (Cons q qs)
  from Cons.prems have fq: "string_free d s q" and fqs: "list_all (string_free d s) qs"
    by simp_all
  from IH fq obtain s1 where
    e1: "expand parse d s q = Some (s1, Inr q)" and m1: "nil_slices_made s s1"
    and t1: "settled d s1 q"
    by blast
  have "list_all (string_free d s1) qs"
    using fqs m1 by (auto simp: list_all_iff intro: string_free_made)
  from Cons.IH [OF this, of "acc @ [q]"] obtain s2 where
    e2: "expandSlice (expand parse d) s1 qs (acc @ [q]) = Some (s2, Inr ((acc @ [q]) @ qs))"
    and m2: "nil_slices_made s1 s2" and t2: "list_all (settled d s2) qs"
    by blast
  have "expandSlice (expand parse d) s (q # qs) acc = Some (s2, Inr (acc @ q # qs))"
    using e1 e2 by simp
  moreover have "nil_slices_made s s2"
    using m1 m2 by (rule nil_slices_made_trans)
  moreover have "settled d s2 q"
    using t1 m2 by (rule settled_made)
  ultimately show ?case using t2 by auto
qed

lemma made_Conjuncts:
  assumes "nil_slices_made s s1"
  shows "nil_slices_made s (s1\<lparr>Conjuncts := (Conjuncts s1)(a := Some (elems (Conjuncts s a)))\<rparr>)"
  using assms by (auto simp: nil_slices_made_def)

lemma made_Disjuncts:
  assumes "nil_slices_made s s1"
  shows "nil_slices_made s (s1\<lparr>Disjuncts := (Disjuncts s1)(a := Some (elems (Disjuncts s a)))\<rparr>)"
  using assms by (auto simp: nil_slices_made_def)

lemma write_same:
  "s\<lparr>Must := (Must s)(a := Must s a)\<rparr> = s"
  "s\<lparr>Should := (Should s)(a := Should s a)\<rparr> = s"
  "s\<lparr>MustNot := (MustNot s)(a := MustNot s a)\<rparr> = s"
  "s\<lparr>Conjuncts := (Conjuncts s)(a := Conjuncts s a)\<rparr> = s"
  "s\<lparr>Disjuncts := (Disjuncts s)(a := Disjuncts s a)\<rparr> = s"
  by simp_all

lemma expand_string_free:
  "string_free d s q \<Longrightarrow>
   \<exists>s'. expand parse d s q = Some (s', Inr q) \<and> nil_slices_made s s' \<and> settled d s' q"
proof (induction d arbitrary: s q)
  case 0
  then show ?case by simp
next
  case (Suc d)
  have IH: "\<forall>s q. string_free d s q \<longrightarrow>
           (\<exists>s'. expand parse d s q = Some (s', Inr q) \<and> nil_slices_made s s' \<and> settled d s' q)"
    using Suc.IH by blast
  show ?case
  proof (cases q)
    case NilQuery
    then show ?thesis by (simp add: nil_slices_made_refl)
  next
    case (Ref t a)
    consider (qs) "t = QueryStringQuery" | (conj) "t = ConjunctionQuery"
      | (disj) "t = DisjunctionQuery" | (bool) "t = BooleanQuery"
      | (other) "t \<noteq> QueryStringQuery" "t \<noteq> ConjunctionQuery" "t \<noteq> DisjunctionQuery"
          "t \<noteq> BooleanQuery"
      by blast
    then show ?thesis
    proof cases
      case qs
      with Suc.prems Ref show ?thesis by simp
    next
      case conj
      let ?qs = "elems (Conjuncts s a)"
      from Suc.prems Ref conj have "list_all (string_free d s) ?qs" by simp
      from expandSlice_string_free [OF IH this, of "[]"] obtain s1 where
        e: "expandSlice (expand parse d) s ?qs [] = Some (s1, Inr ?qs)"
        and m: "nil_slices_made s s1" and t: "list_all (settled d s1) ?qs"
        by auto
      let ?s' = "s1\<lparr>Conjuncts := (Conjuncts s1)(a := Some ?qs)\<rparr>"
      have ex: "expand parse (Suc d) s q = Some (?s', Inr q)"
        using e Ref conj by simp
      have m': "nil_slices_made s ?s'"
        using m by (rule made_Conjuncts)
      have "nil_slices_made s1 ?s'"
        using made_Conjuncts [OF nil_slices_made_refl, of s1 a] nil_slices_made_elems(1) [OF m, of a]
        by simp
      then have "list_all (settled d ?s') ?qs"
        using t by (auto simp: list_all_iff intro: settled_made)
      then have "settled (Suc d) ?s' q"
        using Ref conj by (simp add: elems_def)
      with ex m' show ?thesis by blast
    next
      case disj
      let ?qs = "elems (Disjuncts s a)"
      from Suc.prems Ref disj have "list_all (string_free d s) ?qs" by simp
      from expandSlice_string_free [OF IH this, of "[]"] obtain s1 where
        e: "expandSlice (expand parse d) s ?qs [] = Some (s1, Inr ?qs)"
        and m: "nil_slices_made s s1" and t: "list_all (settled d s1) ?qs"
        by auto
      let ?s' = "s1\<lparr>Disjuncts := (Disjuncts s1)(a := Some ?qs)\<rparr>"
      have ex: "expand parse (Suc d) s q = Some (?s', Inr q)"
        using e Ref disj by simp
      have m': "nil_slices_made s ?s'"
        using m by (rule made_Disjuncts)
      have "nil_slices_made s1 ?s'"
        using made_Disjuncts [OF nil_slices_made_refl, of s1 a] nil_slices_made_elems(2) [OF m, of a]
        by simp
      then have "list_all (settled d ?s') ?qs"
        using t by (auto simp: list_all_iff intro: settled_made)
      then have "settled (Suc d) ?s' q"
        using Ref disj by (simp add: elems_def)
      with ex m' show ?thesis by blast
    next
      case bool
      from Suc.prems Ref bool have f1: "string_free d s (Must s a)"
        and f2: "string_free d s (Should s a)" and f3: "string_free d s (MustNot s a)"
        by simp_all
      from IH f1 obtain s1 where e1: "expand parse d s (Must s a) = Some (s1, Inr (Must s a))"
        and m1: "nil_slices_made s s1" and t1: "settled d s1 (Must s a)"
        by blast
      have w1: "s1\<lparr>Must := (Must s1)(a := Must s a)\<rparr> = s1"
        using write_same(1) [of s1 a] nil_slices_made_slots(1) [OF m1] by simp
      have "string_free d s1 (Should s a)" using f2 m1 by (rule string_free_made)
      with IH obtain s2 where e2: "expand parse d s1 (Should s a) = Some (s2, Inr (Should s a))"
        and m2: "nil_slices_made s1 s2" and t2: "settled d s2 (Should s a)"
        by blast
      have m02: "nil_slices_made s s2" using m1 m2 by (rule nil_slices_made_trans)
      have w2: "s2\<lparr>Should := (Should s2)(a := Should s a)\<rparr> = s2"
        using write_same(2) [of s2 a] nil_slices_made_slots(2) [OF m02] by simp
      have "string_free d s2 (MustNot s a)" using f3 m02 by (rule string_free_made)
      with IH obtain s3 where e3: "expand parse d s2 (MustNot s a) = Some (s3, Inr (MustNot s a))"
        and m3: "nil_slices_made s2 s3" and t3: "settled d s3 (MustNot s a)"
        by blast
      have m03: "nil_slices_made s s3" using m02 m3 by (rule nil_slices_made_trans)
      have w3: "s3\<lparr>MustNot := (MustNot s3)(a := MustNot s a)\<rparr> = s3"
        using write_same(3) [of s3 a] nil_slices_made_slots(3) [OF m03] by simp
      have sl: "Should s1 a = Should s a" "MustNot s2 a = MustNot s a"
        using nil_slices_made_slots [OF m1] nil_slices_made_slots [OF m02] by simp_all
      have ex: "expand parse (Suc d) s q = Some (s3, Inr q)"
        using Ref bool e1 e2 e3 w1 w2 w3 sl by (simp add: returned_def)
      have "settled d s3 (Must s a)"
        using t1 nil_slices_made_trans [OF m2 m3] by (rule settled_made)
      moreover have "settled d s3 (Should s a)"
        using t2 m3 by (rule settled_made)
      ultimately have "settled (Suc d) s3 q"
        using t3 Ref bool nil_slices_made_slots [OF m03] by simp
      with ex m03 show ?thesis by blast
    next
      case other
      with Ref show ?thesis by (simp add: nil_slices_made_refl)
    qed
  qed
qed

lemma expandSlice_settled:
  assumes IH: "\<forall>s q. settled d s q \<longrightarrow> expand parse d s q = Some (s, Inr q)"
  shows "list_all (settled d s) qs \<Longrightarrow>
         expandSlice (expand parse d) s qs acc = Some (s, Inr (acc @ qs))"
proof (induction qs arbitrary: acc)
  case Nil
  then show ?case by simp
next
  case (Cons q qs)
  from Cons.prems IH have "expand parse d s q = Some (s, Inr q)" by simp
  moreover from Cons.prems have "list_all (settled d s) qs" by simp
  ultimately show ?case using Cons.IH [of "acc @ [q]"] by simp
qed

lemma expand_settled:
  "settled d s q \<Longrightarrow> expand parse d s q = Some (s, Inr q)"
proof (induction d arbitrary: s q)
  case 0
  then show ?case by simp
next
  case (Suc d)
  have IH: "\<forall>s q. settled d s q \<longrightarrow> expand parse d s q = Some (s, Inr q)"
    using Suc.IH by blast
  show ?case
  proof (cases q)
    case NilQuery
    then show ?thesis by simp
  next
    case (Ref t a)
    consider (qs) "t = QueryStringQuery" | (conj) "t = ConjunctionQuery"
      | (disj) "t = DisjunctionQuery" | (bool) "t = BooleanQuery"
      | (other) "t \<noteq> QueryStringQuery" "t \<noteq> ConjunctionQuery" "t \<noteq> DisjunctionQuery"
          "t \<noteq> BooleanQuery"
      by blast
    then show ?thesis
    proof cases
      case qs
      with Suc.prems Ref show ?thesis by simp
    next
      case conj
      from Suc.prems Ref conj obtain xs where c: "Conjuncts s a = Some xs"
        and t: "list_all (settled d s) xs"
        by (auto simp: elems_def)
      have "expandSlice (expand parse d) s xs [] = Some (s, Inr xs)"
        using expandSlice_settled [OF IH t, of "[]"] by simp
      then show ?thesis
        using Ref conj c write_same(4) [of s a] by (simp add: elems_def)
    next
      case disj
      from Suc.prems Ref disj obtain xs where c: "Disjuncts s a = Some xs"
        and t: "list_all (settled d s) xs"
        by (auto simp: elems_def)
      have "expandSlice (expand parse d) s xs [] = Some (s, Inr xs)"
        using expandSlice_settled [OF IH t, of "[]"] by simp
      then show ?thesis
        using Ref disj c write_same(5) [of s a] by (simp add: elems_def)
    next
      case bool
      from Suc.prems Ref bool IH have
        "expand parse d s (Must s a) = Some (s, Inr (Must s a))"
        "expand parse d s (Should s a) = Some (s, Inr (Should s a))"
        "expand parse d s (MustNot s a) = Some (s, Inr (MustNot s a))"
        by simp_all
      then show ?thesis
        using Ref bool by (simp add: returned_def)
    next
      case other
      with Ref show ?thesis by simp
    qed
  qed
qed

lemma string_free_Suc: "string_free d s q \<Longrightarrow> string_free (Suc d) s q"
proof (induction d arbitrary: q)
  case 0
  then show ?case by simp
next
  case (Suc d)
  have IH: "list_all (string_free d s) qs \<Longrightarrow> list_all (string_free (Suc d) s) qs" for qs
    using Suc.IH by (auto simp: list_all_iff)
  show ?case
  proof (cases q)
    case NilQuery
    then show ?thesis by simp
  next
    case (Ref t a)
    with Suc.prems Suc.IH IH show ?thesis
      by (auto simp del: string_free.simps(2) simp add: string_free.simps(2) [of "Suc d"]
          string_free.simps(2) [of d])
  qed
qed

lemma string_free_mono:
  assumes "string_free d s q" and "d \<le> fuel"
  shows "string_free fuel s q"
  using assms(2,1)
proof (induction rule: dec_induct)
  case base
  then show ?case .
next
  case (step n)
  then show ?case by (blast intro: string_free_Suc)
qed

text \<open>
  Claim C8. On a tree without query string nodes, with fuel for its height, the expansion
  succeeds and returns the pointer it was given; a second expansion, in the store the
  first one left, returns the same pointer and leaves that store as it is. A node that is
  neither a query string nor a conjunction, disjunction or boolean query is returned
  with the store unchanged.
\<close>

theorem expand_idempotent:
  "(string_free d s q \<and> d \<le> fuel \<longrightarrow>
      (\<exists>s1. expand parse fuel s q = Some (s1, Inr q)
           \<and> expand parse fuel s1 q = Some (s1, Inr q)))
   \<and> (t \<noteq> QueryStringQuery \<and> t \<noteq> ConjunctionQuery \<and> t \<noteq> DisjunctionQuery
        \<and> t \<noteq> BooleanQuery \<longrightarrow>
      expand parse (Suc fuel) s (Ref t a) = Some (s, Inr (Ref t a)))"
proof -
  have "\<exists>s1. expand parse fuel s q = Some (s1, Inr q) \<and> expand parse fuel s1 q = Some (s1, Inr q)"
    if "string_free d s q" "d \<le> fuel"
  proof -
    from that have "string_free fuel s q" by (rule string_free_mono)
    then obtain s1 where e: "expand parse fuel s q = Some (s1, Inr q)"
      and t: "settled fuel s1 q"
      using expand_string_free [of fuel s q parse] by blast
    from t have "expand parse fuel s1 q = Some (s1, Inr q)" by (rule expand_settled)
    with e show ?thesis by blast
  qed
  moreover have "expand parse (Suc fuel) s (Ref t a) = Some (s, Inr (Ref t a))"
    if "t \<noteq> QueryStringQuery" "t \<noteq> ConjunctionQuery" "t \<noteq> DisjunctionQuery"
      "t \<noteq> BooleanQuery"
    using that by (rule expand_other)
  ultimately show ?thesis by blast
qed

lemma plain_store_string_free: "string_free 3 plain_store (Ref BooleanQuery 4)"
  by code_simp

lemma plain_store_run:
  "map_option (\<lambda>(s, r). (Disjuncts s 0, Conjuncts s 3, r))
     (expand sample_parse 5 plain_store (Ref BooleanQuery 4))
   = Some (Some [], Some [Ref TermQuery 1, Ref MatchQuery 2], Inr (Ref BooleanQuery 4))"
  by code_simp

theorem expand_idempotent_witness:
  "string_free 3 plain_store (Ref BooleanQuery 4)
   \<and> (3::nat) \<le> 5
   \<and> (case expand sample_parse 5 plain_store (Ref BooleanQuery 4) of
        None \<Rightarrow> False
      | Some (s1, r) \<Rightarrow>
          r = Inr (Ref BooleanQuery 4) \<and> Disjuncts s1 0 = Some []
          \<and> expand sample_parse 5 s1 (Ref BooleanQuery 4) = Some (s1, r))
   \<and> Disjuncts plain_store 0 = None"
proof -
  have le: "(3::nat) \<le> 5" by simp
  from expand_idempotent
    [where parse = sample_parse and d = 3 and fuel = 5 and s = plain_store
       and q = "Ref BooleanQuery 4"]
    plain_store_string_free le
  obtain s1 where
    e1: "expand sample_parse 5 plain_store (Ref BooleanQuery 4) = Some (s1, Inr (Ref BooleanQuery 4))"
    and e2: "expand sample_parse 5 s1 (Ref BooleanQuery 4) = Some (s1, Inr (Ref BooleanQuery 4))"
    by blast
  from e1 plain_store_run have "Disjuncts s1 0 = Some []" by simp
  moreover have "Disjuncts plain_store 0 = None" by (simp add: plain_store_def)
  ultimately show ?thesis using plain_store_string_free le e1 e2 by simp
qed

end
